theory Spec2Isabelle
  imports Main
begin

section \<open>Python strings\<close>

text \<open>
  A Python \<open>str\<close> is a sequence of Unicode code points. The Vietnamese words of the
  source lie outside ASCII, so a string is modelled as the list of its code points
  (what \<open>ord\<close> returns for each character); \<open>len\<close>, slicing and comparison then
  agree with Python's. All literals of the source are in NFC and are written here by
  their code points.
\<close>

type_synonym ustr = "nat list"

text \<open>
  The characters for which \<open>str.isspace\<close> holds; \<open>str.split()\<close> and
  \<open>str.strip()\<close> with no argument separate and trim at exactly these.
\<close>

definition is_space :: "nat \<Rightarrow> bool" where
  "is_space c \<longleftrightarrow>
     (9 \<le> c \<and> c \<le> 13) \<or> (28 \<le> c \<and> c \<le> 32) \<or> c = 133 \<or> c = 160 \<or> c = 5760 \<or>
     (8192 \<le> c \<and> c \<le> 8202) \<or> c = 8232 \<or> c = 8233 \<or> c = 8239 \<or> c = 8287 \<or> c = 12288"

text \<open>\<open>text.split()\<close>: the maximal runs of non-whitespace characters, in order.\<close>

function split_ws :: "ustr \<Rightarrow> ustr list" where
  "split_ws s =
     (case dropWhile is_space s of
        [] \<Rightarrow> []
      | c # cs \<Rightarrow>
          takeWhile (\<lambda>x. \<not> is_space x) (c # cs)
            # split_ws (dropWhile (\<lambda>x. \<not> is_space x) (c # cs)))"
  by pat_completeness auto
termination
proof (relation "measure length")
  show "wf (measure length)" by simp
next
  fix s :: ustr and c cs
  assume d: "dropWhile is_space s = c # cs"
  then have nsp: "\<not> is_space c"
    by (metis hd_dropWhile list.sel(1) list.distinct(1))
  have "length (dropWhile (\<lambda>x. \<not> is_space x) (c # cs)) \<le> length cs"
    using nsp by (simp add: length_dropWhile_le)
  also have "length cs < length (c # cs)" by simp
  also have "length (c # cs) \<le> length s"
    using d length_dropWhile_le [of is_space s] by simp
  finally show "(dropWhile (\<lambda>x. \<not> is_space x) (c # cs), s) \<in> measure length"
    by simp
qed

declare split_ws.simps [simp del]

text \<open>
  What an element of \<open>text.split()\<close> is: a non-empty string with no whitespace
  character.
\<close>

definition is_token :: "ustr \<Rightarrow> bool" where
  "is_token t \<longleftrightarrow> t \<noteq> [] \<and> (\<forall>c \<in> set t. \<not> is_space c)"

text \<open>\<open>text.strip()\<close>: leading and trailing whitespace removed.\<close>

definition strip :: "ustr \<Rightarrow> ustr" where
  "strip s = rev (dropWhile is_space (rev (dropWhile is_space s)))"

text \<open>\<open>text.rstrip(chars)\<close> for a one-character argument.\<close>

definition rstrip_char :: "nat \<Rightarrow> ustr \<Rightarrow> ustr" where
  "rstrip_char ch s = rev (dropWhile (\<lambda>x. x = ch) (rev s))"

text \<open>\<open>sep.join(parts)\<close>.\<close>

fun join :: "ustr \<Rightarrow> ustr list \<Rightarrow> ustr" where
  "join sep [] = []"
| "join sep [x] = x"
| "join sep (x # y # ys) = x @ sep @ join sep (y # ys)"

text \<open>
  \<open>text.replace(old, new)\<close>: every non-overlapping occurrence of \<open>old\<close>, found
  from the left, is replaced. With an empty \<open>old\<close> Python inserts \<open>new\<close> before
  every character and at the end. \<open>re.sub\<close> with a pattern of literal characters
  only (as \<open>"ga ra"\<close>) is the same operation.
\<close>

function replace_from :: "ustr \<Rightarrow> ustr \<Rightarrow> ustr \<Rightarrow> ustr" where
  "replace_from old new s =
     (if s = [] then []
      else if old \<noteq> [] \<and> take (length old) s = old
        then new @ replace_from old new (drop (length old) s)
        else hd s # replace_from old new (tl s))"
  by pat_completeness auto
termination
  by (relation "measure (\<lambda>(old, new, s). length s)") (auto simp: Suc_le_eq)

declare replace_from.simps [simp del]

definition replace :: "ustr \<Rightarrow> ustr \<Rightarrow> ustr \<Rightarrow> ustr" where
  "replace old new s =
     (if old = [] then new @ concat (map (\<lambda>c. c # new) s) else replace_from old new s)"

text \<open>\<open>str(n)\<close> for an integer: decimal digits, with a minus sign when negative.\<close>

fun str_nat :: "nat \<Rightarrow> ustr" where
  "str_nat n = (if n < 10 then [48 + n] else str_nat (n div 10) @ [48 + n mod 10])"

declare str_nat.simps [simp del]

definition str_int :: "int \<Rightarrow> ustr" where
  "str_int i = (if i < 0 then 45 # str_nat (nat (- i)) else str_nat (nat i))"

section \<open>vi_normalize.py\<close>

subsection \<open>The word tables\<close>

text \<open>
  The Vietnamese words of the source, by code point. The names drop the diacritics;
  where two words differ only in diacritics a digit tells them apart.
\<close>

definition w_khong :: ustr where "w_khong = [107, 104, 244, 110, 103]"
definition w_mot :: ustr where "w_mot = [109, 7897, 116]"
definition w_mot1 :: ustr where "w_mot1 = [109, 7889, 116]"
definition w_hai :: ustr where "w_hai = [104, 97, 105]"
definition w_ba :: ustr where "w_ba = [98, 97]"
definition w_bon :: ustr where "w_bon = [98, 7889, 110]"
definition w_tu :: ustr where "w_tu = [116, 432]"
definition w_nam :: ustr where "w_nam = [110, 259, 109]"
definition w_lam :: ustr where "w_lam = [108, 259, 109]"
definition w_sau :: ustr where "w_sau = [115, 225, 117]"
definition w_bay :: ustr where "w_bay = [98, 7843, 121]"
definition w_tam :: ustr where "w_tam = [116, 225, 109]"
definition w_chin :: ustr where "w_chin = [99, 104, 237, 110]"
definition w_muoi :: ustr where "w_muoi = [109, 432, 7901, 105]"
definition w_muoi1 :: ustr where "w_muoi1 = [109, 432, 417, 105]"
definition w_linh :: ustr where "w_linh = [108, 105, 110, 104]"
definition w_le :: ustr where "w_le = [108, 7867]"
definition w_tram :: ustr where "w_tram = [116, 114, 259, 109]"
definition w_gio :: ustr where "w_gio = [103, 105, 7901]"
definition w_phut :: ustr where "w_phut = [112, 104, 250, 116]"
definition w_giay :: ustr where "w_giay = [103, 105, 226, 121]"
definition w_ngay :: ustr where "w_ngay = [110, 103, 224, 121]"
definition w_thang :: ustr where "w_thang = [116, 104, 225, 110, 103]"
definition w_do :: ustr where "w_do = [273, 7897]"
definition w_phan :: ustr where "w_phan = [112, 104, 7847, 110]"
definition w_ruoi :: ustr where "w_ruoi = [114, 432, 7905, 105]"

lemmas word_defs =
  w_khong_def w_mot_def w_mot1_def w_hai_def w_ba_def w_bon_def w_tu_def w_nam_def
  w_lam_def w_sau_def w_bay_def w_tam_def w_chin_def w_muoi_def w_muoi1_def w_linh_def
  w_le_def w_tram_def w_gio_def w_phut_def w_giay_def w_ngay_def w_thang_def w_do_def
  w_phan_def w_ruoi_def

text \<open>The dictionary \<open>_NUMBER_UNITS\<close>, in the order of the source.\<close>

definition NUMBER_UNITS_items :: "(ustr \<times> int) list" where
  "NUMBER_UNITS_items =
     [(w_khong, 0), (w_mot, 1), (w_mot1, 1), (w_hai, 2), (w_ba, 3), (w_bon, 4), (w_tu, 4),
      (w_nam, 5), (w_lam, 5), (w_sau, 6), (w_bay, 7), (w_tam, 8), (w_chin, 9)]"

definition NUMBER_UNITS :: "ustr \<rightharpoonup> int" where
  "NUMBER_UNITS = map_of NUMBER_UNITS_items"

text \<open>\<open>_NUMBER_TOKENS = set(_NUMBER_UNITS) | {...}\<close>.\<close>

definition NUMBER_TOKENS :: "ustr set" where
  "NUMBER_TOKENS =
     set (map fst NUMBER_UNITS_items) \<union> {w_muoi, w_muoi1, w_linh, w_le, w_tram}"

definition NUMBER_FOLLOWERS :: "ustr set" where
  "NUMBER_FOLLOWERS =
     {w_gio, w_phut, w_giay, w_ngay, w_thang, w_nam, w_do, w_phan, w_ruoi}"

subsection \<open>\<open>_words_to_number\<close>\<close>

text \<open>
  The \<open>for\<close> loop over the words, with the loop variables \<open>total\<close> (here \<open>tot\<close>) and
  \<open>value_set\<close> as arguments. A word that is neither a particle nor a key of
  \<open>_NUMBER_UNITS\<close> makes the function return \<open>None\<close> at once.
\<close>

fun words_loop :: "int \<Rightarrow> bool \<Rightarrow> ustr list \<Rightarrow> int option" where
  "words_loop tot value_set [] = (if value_set then Some tot else None)"
| "words_loop tot value_set (word # rest) =
     (if word = w_muoi then
        words_loop (if tot = 0 then 10 else tot + 10) True rest
      else if word = w_muoi1 then
        words_loop ((if tot \<noteq> 0 then tot else 1) * 10) True rest
      else if word = w_linh \<or> word = w_le then
        words_loop (if tot = 0 then 0 else tot) True rest
      else if word = w_tram then
        words_loop ((if tot \<noteq> 0 then tot else 1) * 100) True rest
      else
        (case NUMBER_UNITS word of
           None \<Rightarrow> None
         | Some unit \<Rightarrow>
             words_loop (if tot \<ge> 10 \<or> value_set then tot + unit else unit) True rest))"

definition words_to_number :: "ustr list \<Rightarrow> int option" where
  "words_to_number words = (if words = [] then None else words_loop 0 False words)"

subsection \<open>\<open>normalize_vietnamese_numbers\<close>\<close>

text \<open>The inner \<open>while\<close>: the end \<open>j\<close> of the run of number tokens that starts at \<open>j\<close>.\<close>

function scan_run :: "ustr list \<Rightarrow> nat \<Rightarrow> nat" where
  "scan_run tokens j =
     (if j < length tokens \<and> tokens ! j \<in> NUMBER_TOKENS then scan_run tokens (j + 1) else j)"
  by pat_completeness auto
termination
  by (relation "measure (\<lambda>(tokens, j). length tokens - j)") auto

declare scan_run.simps [simp del]

lemma scan_run_advances:
  "i < length tokens \<Longrightarrow> tokens ! i \<in> NUMBER_TOKENS \<Longrightarrow> i < scan_run tokens i"
proof -
  have ge: "j \<le> scan_run tokens j" for j
  proof (induction tokens j rule: scan_run.induct)
    case (1 tokens j)
    show ?case
    proof (cases "j < length tokens \<and> tokens ! j \<in> NUMBER_TOKENS")
      case True
      with "1.IH" have "j + 1 \<le> scan_run tokens (j + 1)" by simp
      with True show ?thesis by (simp add: scan_run.simps [of tokens j])
    next
      case False
      then show ?thesis by (auto simp: scan_run.simps [of tokens j])
    qed
  qed
  assume "i < length tokens" "tokens ! i \<in> NUMBER_TOKENS"
  then have "scan_run tokens i = scan_run tokens (i + 1)"
    by (simp add: scan_run.simps [of tokens i])
  with ge [of "i + 1"] show ?thesis by simp
qed

lemma scan_run_le_length: "j \<le> length tokens \<Longrightarrow> scan_run tokens j \<le> length tokens"
proof (induction tokens j rule: scan_run.induct)
  case (1 tokens j)
  show ?case
  proof (cases "j < length tokens \<and> tokens ! j \<in> NUMBER_TOKENS")
    case True
    with "1.IH" show ?thesis by (simp add: scan_run.simps [of tokens j])
  next
    case False
    with "1.prems" show ?thesis by (auto simp: scan_run.simps [of tokens j])
  qed
qed

text \<open>
  The guard of the conversion, as the source computes it for the run
  \<open>tokens[i:j]\<close>: \<open>should_convert\<close> from the token after the run, then the two
  exclusions. \<open>number_value and number_value >= 10\<close> is false for \<open>None\<close> and
  for \<open>0\<close>.
\<close>

definition should_convert :: "ustr list \<Rightarrow> nat \<Rightarrow> int option \<Rightarrow> bool" where
  "should_convert tokens j number_value =
     (let next_token = (if j < length tokens then tokens ! j else [])
      in if next_token \<in> NUMBER_FOLLOWERS then True
         else if next_token = w_phan \<and> j + 1 < length tokens \<and> tokens ! (j + 1) = w_tram
           then True
         else if next_token = w_ruoi then True
         else if j = length tokens \<and>
                 (case number_value of None \<Rightarrow> False | Some v \<Rightarrow> v \<noteq> 0 \<and> v \<ge> 10)
           then True
         else False)"

definition converts :: "ustr list \<Rightarrow> nat \<Rightarrow> nat \<Rightarrow> bool" where
  "converts tokens i j =
     (let run = take (j - i) (drop i tokens);
          number_value = words_to_number run;
          prev_token = (if i > 0 then tokens ! (i - 1) else [])
      in number_value \<noteq> None
         \<and> should_convert tokens j number_value
         \<and> \<not> (number_value = Some 0 \<and> run = [w_khong])
         \<and> \<not> (run = [w_tram] \<and> prev_token = w_phan))"

text \<open>
  The outer \<open>while i < len(tokens)\<close>, with \<open>normalized_tokens\<close> as the
  accumulator: a converted run contributes \<open>str(number_value)\<close> and moves \<open>i\<close>
  to \<open>j\<close>; in every other case the token at \<open>i\<close> is copied and \<open>i\<close> moves on
  by one.
\<close>

function normalize_loop :: "ustr list \<Rightarrow> nat \<Rightarrow> ustr list \<Rightarrow> ustr list" where
  "normalize_loop tokens i normalized_tokens =
     (if i < length tokens then
        (if tokens ! i \<in> NUMBER_TOKENS \<and> converts tokens i (scan_run tokens i) then
           normalize_loop tokens (scan_run tokens i)
             (normalized_tokens
                @ [str_int (the (words_to_number
                      (take (scan_run tokens i - i) (drop i tokens))))])
         else normalize_loop tokens (i + 1) (normalized_tokens @ [tokens ! i]))
      else normalized_tokens)"
  by pat_completeness auto
termination
proof (relation "measure (\<lambda>(tokens, i, acc). length tokens - i)")
  show "wf (measure (\<lambda>(tokens, i, acc). length tokens - i))" by simp
next
  fix tokens :: "ustr list" and i :: nat and normalized_tokens :: "ustr list"
  assume "i < length tokens"
    and "tokens ! i \<in> NUMBER_TOKENS \<and> converts tokens i (scan_run tokens i)"
  then have "i < scan_run tokens i" by (simp add: scan_run_advances)
  then show "((tokens, scan_run tokens i,
               normalized_tokens
                 @ [str_int (the (words_to_number
                       (take (scan_run tokens i - i) (drop i tokens))))]),
              tokens, i, normalized_tokens)
             \<in> measure (\<lambda>(tokens, i, acc). length tokens - i)"
    using \<open>i < length tokens\<close> by simp
next
  fix tokens :: "ustr list" and i :: nat and normalized_tokens :: "ustr list"
  assume "i < length tokens"
  then show "((tokens, i + 1, normalized_tokens @ [tokens ! i]), tokens, i, normalized_tokens)
             \<in> measure (\<lambda>(tokens, i, acc). length tokens - i)"
    by simp
qed

declare normalize_loop.simps [simp del]

text \<open>
  Names for the two expressions of the loop body: whether the run that starts at
  \<open>i\<close> is converted, and the digits it is converted to.
\<close>

definition run_converts :: "ustr list \<Rightarrow> nat \<Rightarrow> bool" where
  "run_converts tokens i \<longleftrightarrow>
     tokens ! i \<in> NUMBER_TOKENS \<and> converts tokens i (scan_run tokens i)"

definition run_value :: "ustr list \<Rightarrow> nat \<Rightarrow> ustr" where
  "run_value tokens i =
     str_int (the (words_to_number (take (scan_run tokens i - i) (drop i tokens))))"

definition normalize_vietnamese_numbers :: "ustr \<Rightarrow> ustr" where
  "normalize_vietnamese_numbers text =
     (let tokens = split_ws text
      in if tokens = [] then text else join [32] (normalize_loop tokens 0 []))"

subsection \<open>\<open>normalize_cancellation_terms\<close> and \<open>normalize_vietnamese_transcript\<close>\<close>

definition normalize_cancellation_terms :: "ustr \<Rightarrow> ustr" where
  "normalize_cancellation_terms text =
     replace [72, 7911, 121] [72, 117, 7927] (replace [104, 7911, 121] [104, 117, 7927] text)"

definition normalize_vietnamese_transcript :: "ustr \<Rightarrow> ustr" where
  "normalize_vietnamese_transcript text =
     (let normalized = replace [116, 105, 118, 105] [116, 118] text;
          normalized = replace [116, 105, 32, 118, 105] [116, 118] normalized;
          normalized = replace [116, 105, 45, 118, 105] [116, 118] normalized;
          normalized = replace [116, 105, 46, 32, 118, 105] [116, 118] normalized;
          normalized = replace [103, 97, 32, 114, 97] [103, 97, 114, 97] normalized;
          normalized = normalize_vietnamese_numbers normalized;
          normalized = normalize_cancellation_terms normalized
      in normalized)"


section \<open>Collaborators outside the sources\<close>

text \<open>ASCII literals of the source are written as Isabelle strings and converted.\<close>

definition ascii :: "string \<Rightarrow> ustr" where
  "ascii s = map of_char s"

type_synonym bytes = "nat list"
type_synonym path = ustr

text \<open>\<open>parent / name\<close> of \<open>pathlib\<close>.\<close>

definition path_join :: "path \<Rightarrow> ustr \<Rightarrow> path" where
  "path_join parent name = parent @ [47] @ name"

text \<open>
  Modelled from the spec: the \<open>Model\<close> descriptor of \<open>models.py\<close>, which is not
  among the sources. The fields are the ones the transcription modules read; the field
  \<open>id\<close> is called \<open>model_id\<close> here. The casing tag is left abstract: the modules
  only pass it to \<open>WordCasing.get_function\<close>.
\<close>

record 'c model =
  model_id :: ustr
  language_family :: ustr
  casing :: 'c
  url :: "ustr option"

text \<open>
  Modelled from the spec: \<open>Settings\<close> of \<open>const.py\<close>, which is not among the
  sources: the base directory and the function from a model id to its data directory.
\<close>

record settings =
  models_dir :: path
  model_data_dir :: "ustr \<Rightarrow> path"

text \<open>
  Exceptions raised by code outside the sources. \<open>except Exception\<close> catches the
  first kind only; a \<open>BaseException\<close> that is not an \<open>Exception\<close> (such as
  \<open>KeyboardInterrupt\<close>) passes through it.
\<close>

datatype exc = Exception ustr | BaseException ustr

text \<open>The places where the sources raise \<open>TranscribingError\<close>.\<close>

datatype reason =
    MissingDependency
  | ModelDirectoryMissing path
  | MissingAssets "path list"
  | NoTokensLoaded path
  | UnexpectedEncoderShape
  | RepoIdUnknown
  | DownloadFailed exc
  | LoadFailed exc
  | TranscriptionFailed exc

datatype error =
    TranscribingError reason
  | Raised exc
  | AssertionError
  | IndexError
  | ValueError
  | OverflowError
  | MemoryError
  | UnicodeDecodeError

section \<open>post_process.py\<close>

text \<open>
  \<open>finalize_transcript\<close>. \<open>decode_meta\<close> belongs to \<open>hassil_fst\<close>, outside the
  sources, and is a parameter.
\<close>

definition finalize_transcript :: "(ustr \<Rightarrow> ustr) \<Rightarrow> 'c model \<Rightarrow> ustr \<Rightarrow> ustr" where
  "finalize_transcript decode_meta model text =
     (let normalized = strip text
      in if normalized = [] then []
         else decode_meta
           (if language_family model = ascii ''vi''
            then normalize_vietnamese_transcript normalized
            else normalized))"

section \<open>transcribe_vietasr.py: the token table\<close>

subsection \<open>\<open>_read_tokens\<close>\<close>

text \<open>
  The file object that \<open>tokens_path.open("r", encoding="utf-8")\<close> gives, as the
  \<open>for\<close> loop sees it: a file whose bytes are valid UTF-8 yields its decoded lines and
  ends; a file whose bytes are not yields the lines that were decoded before the
  invalid bytes were reached, and the iteration then raises \<open>UnicodeDecodeError\<close>.
\<close>

datatype text_file = Text "ustr list" | Garbled "ustr list"

text \<open>
  \<open>int(parts[-1])\<close> is Python's built-in conversion, which either returns an integer
  or raises \<open>ValueError\<close>; it is the parameter \<open>py_int\<close>, with \<open>None\<close> for the
  \<open>ValueError\<close> that the source catches.

  \<open>line_entry\<close> is the part of the loop body before the list is touched: the token
  and index of a line, or \<open>None\<close> where the body reaches a \<open>continue\<close>.
\<close>

definition line_entry :: "(ustr \<Rightarrow> int option) \<Rightarrow> ustr \<Rightarrow> (ustr \<times> nat) option" where
  "line_entry py_int line =
     (let stripped = strip line
      in if stripped = [] \<or> take 1 stripped = ascii ''#'' then None
         else let parts = split_ws stripped
           in if length parts < 2 then None
              else let token = hd parts
                in (case py_int (last parts) of
                      None \<Rightarrow> None
                    | Some index \<Rightarrow> if index < 0 then None else Some (token, nat index)))"

text \<open>
  \<open>tokens[index] = token\<close> raises \<open>IndexError\<close> when the index is not below
  the length of the list.
\<close>

definition list_assign :: "'a list \<Rightarrow> nat \<Rightarrow> 'a \<Rightarrow> error + 'a list" where
  "list_assign xs i v = (if i < length xs then Inr (xs[i := v]) else Inl IndexError)"

text \<open>
  The last three lines of the loop body. The list grows by
  \<open>[""] * (index + 1 - len(tokens))\<close>, and the interpreter limits that: the
  repetition raises \<open>OverflowError\<close> when the count does not fit a machine index (it
  is above \<open>sys.maxsize\<close>), and \<open>MemoryError\<close> when there is no room for the list.
  Memory is modelled by the largest number of elements that a list can be given,
  \<open>list_capacity\<close>. Neither exception is caught.
\<close>

definition store_token :: "nat \<Rightarrow> nat \<Rightarrow> ustr list \<Rightarrow> ustr \<times> nat \<Rightarrow> error + ustr list" where
  "store_token maxsize list_capacity tokens entry =
     (let token = fst entry; index = snd entry
      in if index \<ge> length tokens then
           (if index + 1 - length tokens > maxsize then Inl OverflowError
            else if index + 1 > list_capacity then Inl MemoryError
            else list_assign (tokens @ replicate (index + 1 - length tokens) []) index token)
         else list_assign tokens index token)"

fun read_tokens_loop ::
  "(ustr \<Rightarrow> int option) \<Rightarrow> nat \<Rightarrow> nat \<Rightarrow> ustr list \<Rightarrow> ustr list \<Rightarrow> error + ustr list"
  where
  "read_tokens_loop py_int maxsize list_capacity tokens [] = Inr tokens"
| "read_tokens_loop py_int maxsize list_capacity tokens (line # rest) =
     (case line_entry py_int line of
        None \<Rightarrow> read_tokens_loop py_int maxsize list_capacity tokens rest
      | Some entry \<Rightarrow>
          (case store_token maxsize list_capacity tokens entry of
             Inl e \<Rightarrow> Inl e
           | Inr tokens' \<Rightarrow> read_tokens_loop py_int maxsize list_capacity tokens' rest))"

definition read_tokens ::
  "(ustr \<Rightarrow> int option) \<Rightarrow> nat \<Rightarrow> nat \<Rightarrow> text_file \<Rightarrow> error + ustr list" where
  "read_tokens py_int maxsize list_capacity token_file =
     (case token_file of
        Text token_lines \<Rightarrow> read_tokens_loop py_int maxsize list_capacity [] token_lines
      | Garbled token_lines \<Rightarrow>
          (case read_tokens_loop py_int maxsize list_capacity [] token_lines of
             Inl e \<Rightarrow> Inl e
           | Inr tokens \<Rightarrow> Inl UnicodeDecodeError))"

text \<open>
  An instance of \<open>py_int\<close> for evaluation: ASCII decimal digits with an optional
  sign, on which it agrees with Python's \<open>int\<close>.
\<close>

fun digits_value :: "int \<Rightarrow> ustr \<Rightarrow> int option" where
  "digits_value acc [] = Some acc"
| "digits_value acc (c # cs) =
     (if 48 \<le> c \<and> c \<le> 57 then digits_value (10 * acc + int (c - 48)) cs else None)"

definition ascii_int :: "ustr \<Rightarrow> int option" where
  "ascii_int s =
     (case s of
        [] \<Rightarrow> None
      | c # cs \<Rightarrow>
          if c = 45 then (if cs = [] then None else map_option uminus (digits_value 0 cs))
          else if c = 43 then (if cs = [] then None else digits_value 0 cs)
          else digits_value 0 (c # cs))"

text \<open>
  A token file with a comment, a blank line, a line of one field, a non-integer index,
  a negative index, a gap (index 2) and an index assigned twice.
\<close>

definition example_token_file :: "ustr list" where
  "example_token_file =
     [ascii ''<blk> 0'' @ [10], ascii ''# a comment'' @ [10], [10], ascii ''lonely'' @ [10],
      ascii ''a x'' @ [10], ascii ''b -1'' @ [10], 9601 # ascii ''c 3'' @ [10],
      ascii ''d e 1'' @ [10], ascii ''f 1'' @ [10]]"

subsection \<open>\<open>_tokens_to_text\<close>\<close>

definition tokens_to_text :: "int list \<Rightarrow> ustr list \<Rightarrow> ustr" where
  "tokens_to_text token_ids tokens =
     (let pieces =
            concat (map (\<lambda>idx.
              if 0 \<le> idx \<and> idx < int (length tokens)
              then (let token = tokens ! nat idx
                    in if token = ascii ''<blk>'' then [] else [token])
              else []) token_ids);
          text = concat pieces;
          text = replace [9601] [32] text
      in strip text)"

section \<open>transcribe_vietasr.py: \<open>_greedy_search\<close>\<close>

text \<open>
  The tensors are kept abstract: a row of the packed encoder output has type \<open>'e\<close>,
  a row of the decoder output type \<open>'d\<close>. What \<open>torch\<close> computes is given by the
  record below: \<open>decoder\<close> is \<open>model.decoder(decoder_input, need_pad).squeeze(1)\<close>
  as a function of the rows of \<open>decoder_input\<close>, and \<open>joiner_argmax\<close> is
  \<open>model.joiner(encoder_slice, decoder_slice).argmax(dim=1).tolist()\<close>.
\<close>

record ('e, 'd) transducer =
  blank_id :: int
  context_size :: nat
  decoder :: "int list list \<Rightarrow> 'd list"
  joiner_argmax :: "'e list \<Rightarrow> 'd list \<Rightarrow> int list"

text \<open>
  The result of \<open>pack_padded_sequence\<close>: the rows in time-major order, the number of
  active batch elements at each step, and the permutation back to the original order.
\<close>

record 'e packed_sequence =
  data :: "'e list"
  batch_sizes :: "nat list"
  unsorted_indices :: "nat list"

text \<open>\<open>h[-context_size:]\<close>; for \<open>context_size = 0\<close> Python returns all of \<open>h\<close>.\<close>

definition last_context :: "nat \<Rightarrow> int list \<Rightarrow> int list" where
  "last_context n h = (if n = 0 then h else drop (length h - n) h)"

text \<open>
  \<open>torch.tensor\<close> of a list of rows raises \<open>ValueError\<close> when the rows differ in
  length.
\<close>

definition tensor_rows :: "int list list \<Rightarrow> error + int list list" where
  "tensor_rows rows =
     (if \<forall>r \<in> set rows. length r = length (hd rows) then Inr rows else Inl ValueError)"

text \<open>
  The inner loop \<open>for idx, token_id in enumerate(top_ids)\<close>: a non-blank id is
  appended to \<open>hyps[idx]\<close>, which raises \<open>IndexError\<close> when \<open>idx\<close> is not an
  index of \<open>hyps\<close>.
\<close>

fun emit :: "int \<Rightarrow> int list list \<Rightarrow> nat \<Rightarrow> int list \<Rightarrow> bool
    \<Rightarrow> error + (int list list \<times> bool)" where
  "emit blank hyps idx [] emitted = Inr (hyps, emitted)"
| "emit blank hyps idx (token_id # rest) emitted =
     (if token_id \<noteq> blank then
        (if idx < length hyps
         then emit blank (hyps[idx := hyps ! idx @ [token_id]]) (idx + 1) rest True
         else Inl IndexError)
      else emit blank hyps (idx + 1) rest emitted)"

text \<open>
  The arg-max ids of one step, from the loop variables \<open>offset\<close> and
  \<open>decoder_out\<close>: \<open>packed.data[start:end]\<close> and \<open>decoder_out[:current_batch]\<close>
  through the joiner.
\<close>

definition top_ids :: "('e, 'd) transducer \<Rightarrow> 'e list \<Rightarrow> nat \<Rightarrow> 'd list \<Rightarrow> nat \<Rightarrow> int list" where
  "top_ids m packed_data offset decoder_out current_batch =
     (let encoder_slice = take current_batch (drop offset packed_data);
          decoder_slice = take current_batch decoder_out
      in joiner_argmax m encoder_slice decoder_slice)"

text \<open>
  The loop \<open>for current_batch in batch_size_list\<close> with the loop variables
  \<open>offset\<close>, \<open>hyps\<close> and \<open>decoder_out\<close>.
\<close>

fun greedy_loop :: "('e, 'd) transducer \<Rightarrow> 'e list \<Rightarrow> nat \<Rightarrow> int list list \<Rightarrow> 'd list
    \<Rightarrow> nat list \<Rightarrow> error + int list list" where
  "greedy_loop m packed_data offset hyps decoder_out [] = Inr hyps"
| "greedy_loop m packed_data offset hyps decoder_out (current_batch # rest) =
     (case emit (blank_id m) hyps 0
             (top_ids m packed_data offset decoder_out current_batch) False of
        Inl e \<Rightarrow> Inl e
      | Inr (hyps', emitted) \<Rightarrow>
          if emitted then
            (case tensor_rows (map (last_context (context_size m)) (take current_batch hyps')) of
               Inl e \<Rightarrow> Inl e
             | Inr decoder_input \<Rightarrow>
                 greedy_loop m packed_data (offset + current_batch) hyps'
                   (decoder m decoder_input) rest)
          else greedy_loop m packed_data (offset + current_batch) hyps' decoder_out rest)"

text \<open>
  The last loop: \<open>results.append(sorted_ans[unsorted_indices[i]])\<close> for \<open>i\<close> in
  \<open>range(batch)\<close>; either index may be out of range.
\<close>

fun unsort :: "int list list \<Rightarrow> nat list \<Rightarrow> nat list \<Rightarrow> error + int list list" where
  "unsort sorted_ans unsorted [] = Inr []"
| "unsort sorted_ans unsorted (i # rest) =
     (if i < length unsorted \<and> unsorted ! i < length sorted_ans then
        (case unsort sorted_ans unsorted rest of
           Inl e \<Rightarrow> Inl e
         | Inr results \<Rightarrow> Inr (sorted_ans ! (unsorted ! i) # results))
      else Inl IndexError)"

text \<open>
  \<open>_greedy_search\<close>. Of \<open>encoder_out\<close> the function reads \<open>dim()\<close> and
  \<open>size(0)\<close>; the packed sequence is the one \<open>torch\<close> makes of it.
\<close>

definition greedy_search :: "('e, 'd) transducer \<Rightarrow> nat \<Rightarrow> nat \<Rightarrow> 'e packed_sequence
    \<Rightarrow> error + int list list" where
  "greedy_search m encoder_out_dim encoder_out_size0 packed_encoder_out =
     (if encoder_out_dim \<noteq> 3 then Inl (TranscribingError UnexpectedEncoderShape)
      else
        let batch_size_list = batch_sizes packed_encoder_out
        in if batch_size_list = [] then Inr []
           else
             let batch = encoder_out_size0
             in if batch \<noteq> hd batch_size_list then Inl AssertionError
                else
                  let hyps = replicate batch (replicate (context_size m) (blank_id m))
                  in (case tensor_rows hyps of
                        Inl e \<Rightarrow> Inl e
                      | Inr decoder_input \<Rightarrow>
                          (case greedy_loop m (data packed_encoder_out) 0 hyps
                                  (decoder m decoder_input) batch_size_list of
                             Inl e \<Rightarrow> Inl e
                           | Inr hyps' \<Rightarrow>
                               unsort (map (drop (context_size m)) hyps')
                                 (unsorted_indices packed_encoder_out) [0..<batch])))"

text \<open>
  The vocabulary of the statement about the decoder: the arg-max ids of every step in
  order, as the loop computes them, and what a batch element emits over a list of
  steps (its non-blank ids, in step order).
\<close>

fun top_trace :: "('e, 'd) transducer \<Rightarrow> 'e list \<Rightarrow> nat \<Rightarrow> int list list \<Rightarrow> 'd list
    \<Rightarrow> nat list \<Rightarrow> int list list" where
  "top_trace m packed_data offset hyps decoder_out [] = []"
| "top_trace m packed_data offset hyps decoder_out (current_batch # rest) =
     (let tops = top_ids m packed_data offset decoder_out current_batch
      in tops #
         (case emit (blank_id m) hyps 0 tops False of
            Inl e \<Rightarrow> []
          | Inr (hyps', emitted) \<Rightarrow>
              top_trace m packed_data (offset + current_batch) hyps'
                (if emitted
                 then decoder m (map (last_context (context_size m)) (take current_batch hyps'))
                 else decoder_out) rest))"

definition emitted_by :: "int \<Rightarrow> nat \<Rightarrow> int list list \<Rightarrow> int list" where
  "emitted_by blank b trace =
     concat (map (\<lambda>tops. if b < length tops \<and> tops ! b \<noteq> blank then [tops ! b] else []) trace)"

definition search_trace :: "('e, 'd) transducer \<Rightarrow> nat \<Rightarrow> 'e packed_sequence \<Rightarrow> int list list" where
  "search_trace m batch packed_encoder_out =
     (let hyps = replicate batch (replicate (context_size m) (blank_id m))
      in top_trace m (data packed_encoder_out) 0 hyps (decoder m hyps)
           (batch_sizes packed_encoder_out))"

text \<open>
  Batch element \<open>b\<close> has a non-blank arg-max at step \<open>k\<close> and at no other step.
\<close>

definition single_emission :: "int \<Rightarrow> nat \<Rightarrow> int list list \<Rightarrow> nat \<Rightarrow> bool" where
  "single_emission blank b trace k \<longleftrightarrow>
     k < length trace \<and> b < length (trace ! k) \<and> trace ! k ! b \<noteq> blank \<and>
     (\<forall>j < length trace. j \<noteq> k \<longrightarrow> \<not> (b < length (trace ! j) \<and> trace ! j ! b \<noteq> blank))"

text \<open>
  Two transducers for evaluation, with the decoder output standing for the context it
  was computed from: one whose arg-max is always blank, and one whose arg-max is the
  id 7 for the all-blank context and blank for every other context (so it emits once).
  The utterance has one batch element and three encoder frames.
\<close>

definition silent_transducer :: "(nat, int list) transducer" where
  "silent_transducer =
     \<lparr>blank_id = 0, context_size = 2, decoder = (\<lambda>rows. rows),
      joiner_argmax = (\<lambda>enc dec. map (\<lambda>_. 0) enc)\<rparr>"

definition once_transducer :: "(nat, int list) transducer" where
  "once_transducer =
     \<lparr>blank_id = 0, context_size = 2, decoder = (\<lambda>rows. rows),
      joiner_argmax = (\<lambda>enc dec. map (\<lambda>ctx. if ctx = [0, 0] then 7 else 0) dec)\<rparr>"

definition one_utterance :: "nat packed_sequence" where
  "one_utterance = \<lparr>data = [10, 11, 12], batch_sizes = [1, 1, 1], unsorted_indices = [0]\<rparr>"

section \<open>The world outside the process\<close>

text \<open>
  Calls that leave the process are recorded, in order, in a log, so that a statement
  about what a function does not touch can be made. The file system is the set of
  directories and the files with their contents, together with the paths at which the
  operating system refuses to create a directory (for want of permission, on a read-only
  file system, and so on) and the \<open>OSError\<close> it raises there.
\<close>

datatype event =
    IsDir path
  | Mkdir path
  | Exists path
  | ReadFile path
  | MkTemp path
  | WriteFile path
  | Unlink path
  | Download ustr path
  | LoadModel path
  | LoadPipeline ustr
  | AcceptWaveform bytes
  | Result
  | FinalResult
  | RunPipeline
  | RunEncoder
  | RunGreedySearch
  | EndlessDecode path

text \<open>
  The content of a file: text that is valid UTF-8, by its decoded lines; text that is
  not, by the lines before the invalid bytes; or binary content.
\<close>

datatype content = Lines "ustr list" | Broken "ustr list" | Wav bytes

record world =
  dirs :: "path set"
  files :: "path \<rightharpoonup> content"
  refused :: "path \<rightharpoonup> exc"
  log :: "event list"

definition log_event :: "event \<Rightarrow> world \<Rightarrow> world" where
  "log_event e w = w\<lparr>log := log w @ [e]\<rparr>"

text \<open>The events that read or write the disk.\<close>

fun is_disk_access :: "event \<Rightarrow> bool" where
  "is_disk_access (IsDir p) = True"
| "is_disk_access (Mkdir p) = True"
| "is_disk_access (Exists p) = True"
| "is_disk_access (ReadFile p) = True"
| "is_disk_access (MkTemp p) = True"
| "is_disk_access (WriteFile p) = True"
| "is_disk_access (Unlink p) = True"
| "is_disk_access (Download r p) = True"
| "is_disk_access (LoadModel p) = True"
| "is_disk_access e = False"

text \<open>The events that are a backend's loader at work.\<close>

fun is_load :: "event \<Rightarrow> bool" where
  "is_load (LoadModel p) = True"
| "is_load (LoadPipeline i) = True"
| "is_load (Download r p) = True"
| "is_load (ReadFile p) = True"
| "is_load e = False"

text \<open>The events that are calls of a recognizer or model on audio.\<close>

fun is_inference :: "event \<Rightarrow> bool" where
  "is_inference (AcceptWaveform chunk) = True"
| "is_inference Result = True"
| "is_inference FinalResult = True"
| "is_inference RunPipeline = True"
| "is_inference RunEncoder = True"
| "is_inference RunGreedySearch = True"
| "is_inference (EndlessDecode p) = True"
| "is_inference e = False"

text \<open>The inference operations that a world has seen, in order.\<close>

definition inference_log :: "world \<Rightarrow> event list" where
  "inference_log w = filter is_inference (log w)"

text \<open>
  The directories above a path: its prefixes that end before a separator (the root is
  not among them).
\<close>

definition ancestors :: "path \<Rightarrow> path list" where
  "ancestors p = map (\<lambda>i. take i p) (filter (\<lambda>i. p ! i = 47) [1..<length p])"

text \<open>
  \<open>path.mkdir(parents=True, exist_ok=True)\<close>. A directory that exists is left as it
  is. A regular file at the path makes the call raise \<open>FileExistsError\<close>, and a
  regular file above it \<open>NotADirectoryError\<close>; so does any other refusal of the
  operating system, with its own error. Otherwise the directory is made, with the
  directories above it that are missing.
\<close>

definition mkdir :: "path \<Rightarrow> world \<Rightarrow> (error + unit) \<times> world" where
  "mkdir p w =
     (let w = log_event (Mkdir p) w
      in if p \<in> dirs w then (Inr (), w)
         else if p \<in> dom (files w)
           then (Inl (Raised (Exception (ascii ''FileExistsError''))), w)
         else if list_ex (\<lambda>q. q \<in> dom (files w)) (ancestors p)
           then (Inl (Raised (Exception (ascii ''NotADirectoryError''))), w)
         else
           (case refused w p of
              Some e \<Rightarrow> (Inl (Raised e), w)
            | None \<Rightarrow> (Inr (), w\<lparr>dirs := dirs w \<union> set (ancestors p) \<union> {p}\<rparr>)))"

text \<open>\<open>path.exists()\<close>.\<close>

definition path_exists :: "path \<Rightarrow> world \<Rightarrow> bool" where
  "path_exists p w \<longleftrightarrow> p \<in> dirs w \<or> p \<in> dom (files w)"

text \<open>
  An exception of outside code under \<open>except Exception as exc: raise
  TranscribingError(...) from exc\<close>.
\<close>

fun reraise :: "(exc \<Rightarrow> reason) \<Rightarrow> exc \<Rightarrow> error" where
  "reraise r (Exception msg) = TranscribingError (r (Exception msg))"
| "reraise r (BaseException msg) = Raised (BaseException msg)"

text \<open>
  The audio stream is the finite list of the chunks it delivers. The three buffering
  backends share the loop \<open>async for chunk in audio_stream: if chunk:
  audio_bytes.extend(chunk)\<close>.
\<close>

definition collect_audio :: "bytes list \<Rightarrow> bytes" where
  "collect_audio audio_stream = concat (filter (\<lambda>chunk. chunk \<noteq> []) audio_stream)"

text \<open>
  The bytes read as 16-bit signed little-endian samples (\<open>array.array("h", ...)\<close>,
  \<open>np.frombuffer(..., dtype=np.int16)\<close>); both raise \<open>ValueError\<close> when a byte is
  left over. The division by 32768.0 is left to the model functions.
\<close>

fun samples :: "bytes \<Rightarrow> error + int list" where
  "samples [] = Inr []"
| "samples [b] = Inl ValueError"
| "samples (lo # hi # rest) =
     (case samples rest of
        Inl e \<Rightarrow> Inl e
      | Inr xs \<Rightarrow>
          (let v = int lo + 256 * int hi
           in Inr ((if v \<ge> 32768 then v - 65536 else v) # xs)))"

text \<open>\<open>sub in s\<close> for strings, and \<open>s.split(sep)\<close> for a one-character separator.\<close>

fun contains :: "ustr \<Rightarrow> ustr \<Rightarrow> bool" where
  "contains sub [] = (sub = [])"
| "contains sub (c # cs) = (take (length sub) (c # cs) = sub \<or> contains sub cs)"

fun split_on :: "nat \<Rightarrow> ustr \<Rightarrow> ustr list" where
  "split_on sep [] = [[]]"
| "split_on sep (c # cs) =
     (if c = sep then [] # split_on sep cs
      else (case split_on sep cs of
              [] \<Rightarrow> [[c]]
            | p # ps \<Rightarrow> (c # p) # ps))"

section \<open>transcribe_vosk.py\<close>

text \<open>
  The \<open>vosk\<close> package: whether it can be imported, the model constructor (which may
  raise), the recognizer constructor, and the three recognizer methods. \<open>Result\<close>
  and \<open>FinalResult\<close> stand for the \<open>"text"\<close> entry of the JSON they return (the
  empty string when there is none).
\<close>

record ('vm, 'r) vosk =
  vosk_importable :: bool
  vosk_model :: "path \<Rightarrow> exc + 'vm"
  kaldi_recognizer :: "'vm \<Rightarrow> 'r"
  accept_waveform :: "'r \<Rightarrow> bytes \<Rightarrow> bool \<times> 'r"
  result_text :: "'r \<Rightarrow> ustr \<times> 'r"
  final_result_text :: "'r \<Rightarrow> ustr"

text \<open>
  The model directory and the dictionary \<open>_VOSK_MODELS\<close>: the part of
  \<open>transcribe_vosk\<close> from \<open>model_dir = ...\<close> to
  \<open>_VOSK_MODELS[model_dir] = vosk_model\<close>.
\<close>

definition vosk_load_model ::
  "('vm, 'r) vosk \<Rightarrow> 'c model \<Rightarrow> settings \<Rightarrow> (path \<rightharpoonup> 'vm) \<Rightarrow> world
     \<Rightarrow> (error + 'vm) \<times> (path \<rightharpoonup> 'vm) \<times> world" where
  "vosk_load_model lib model settings cache w =
     (let model_dir = path_join (models_dir settings) (model_id model);
          w = log_event (IsDir model_dir) w
      in if model_dir \<notin> dirs w
         then (Inl (TranscribingError (ModelDirectoryMissing model_dir)), cache, w)
         else
           (case cache model_dir of
              Some m \<Rightarrow> (Inr m, cache, w)
            | None \<Rightarrow>
                (let w = log_event (LoadModel model_dir) w
                 in case vosk_model lib model_dir of
                      Inl e \<Rightarrow> (Inl (Raised e), cache, w)
                    | Inr m \<Rightarrow> (Inr m, cache(model_dir \<mapsto> m), w))))"

text \<open>The loop \<open>async for chunk in audio_stream\<close>.\<close>

fun vosk_feed ::
  "('vm, 'r) vosk \<Rightarrow> 'r \<Rightarrow> ustr list \<Rightarrow> world \<Rightarrow> bytes list \<Rightarrow> 'r \<times> ustr list \<times> world" where
  "vosk_feed lib recognizer recognized_fragments w [] = (recognizer, recognized_fragments, w)"
| "vosk_feed lib recognizer recognized_fragments w (chunk # rest) =
     (if chunk = [] then vosk_feed lib recognizer recognized_fragments w rest
      else
        (case accept_waveform lib recognizer chunk of
           (accepted, recognizer) \<Rightarrow>
             (let w = log_event (AcceptWaveform chunk) w
              in if accepted then
                   (case result_text lib recognizer of
                      (text, recognizer) \<Rightarrow>
                        (let w = log_event Result w;
                             text = strip text
                         in vosk_feed lib recognizer
                              (if text \<noteq> [] then recognized_fragments @ [text]
                               else recognized_fragments) w rest))
                 else vosk_feed lib recognizer recognized_fragments w rest)))"

text \<open>
  \<open>transcribe_vosk\<close> after the model is there, in two parts: the recognizer at work
  (the loop, then \<open>FinalResult\<close>), which gives \<open>recognized_fragments\<close>; and the
  lines from \<open>if not recognized_fragments\<close> on, which give the phrase.
  \<open>WordCasing.get_function\<close> and \<open>decode_meta\<close> are outside the sources and are
  parameters.
\<close>

definition vosk_recognize ::
  "('vm, 'r) vosk \<Rightarrow> 'vm \<Rightarrow> bytes list \<Rightarrow> world \<Rightarrow> ustr list \<times> world" where
  "vosk_recognize lib m audio_stream w =
     (let recognizer = kaldi_recognizer lib m
      in case vosk_feed lib recognizer [] w audio_stream of
           (recognizer, recognized_fragments, w) \<Rightarrow>
             (let w = log_event FinalResult w;
                  final_text = strip (final_result_text lib recognizer);
                  recognized_fragments =
                    (if final_text \<noteq> [] then recognized_fragments @ [final_text]
                     else recognized_fragments)
              in (recognized_fragments, w)))"

definition vosk_phrase :: "(ustr \<Rightarrow> ustr) \<Rightarrow> (ustr \<Rightarrow> ustr) \<Rightarrow> ustr list \<Rightarrow> ustr" where
  "vosk_phrase casing_func decode_meta recognized_fragments =
     (if recognized_fragments = [] then []
      else
        (let text = join [32] recognized_fragments;
             text = casing_func text
         in decode_meta text))"

definition transcribe_vosk ::
  "('vm, 'r) vosk \<Rightarrow> ('c \<Rightarrow> ustr \<Rightarrow> ustr) \<Rightarrow> (ustr \<Rightarrow> ustr) \<Rightarrow> 'c model \<Rightarrow> settings
     \<Rightarrow> bytes list \<Rightarrow> (path \<rightharpoonup> 'vm) \<Rightarrow> world
     \<Rightarrow> (error + ustr) \<times> (path \<rightharpoonup> 'vm) \<times> world" where
  "transcribe_vosk lib get_function decode_meta model settings audio_stream cache w =
     (if \<not> vosk_importable lib then (Inl (TranscribingError MissingDependency), cache, w)
      else
        (case vosk_load_model lib model settings cache w of
           (Inl e, cache, w) \<Rightarrow> (Inl e, cache, w)
         | (Inr m, cache, w) \<Rightarrow>
             (let casing_func = get_function (casing model)
              in case vosk_recognize lib m audio_stream w of
                   (recognized_fragments, w) \<Rightarrow>
                     (Inr (vosk_phrase casing_func decode_meta recognized_fragments),
                      cache, w))))"

section \<open>transcribe_whisper.py\<close>

text \<open>
  The \<open>transformers\<close> package: whether it can be imported, the \<open>pipeline\<close>
  constructor, and the call of a pipeline on the samples, which stands for
  \<open>result.get("text", "")\<close> of its result.
\<close>

record 'p whisper =
  transformers_importable :: bool
  pipeline :: "ustr \<Rightarrow> exc + 'p"
  transcriber_text :: "'p \<Rightarrow> int list \<Rightarrow> exc + ustr"

text \<open>The identifier under which the model is loaded and cached.\<close>

definition whisper_model_id :: "'c model \<Rightarrow> ustr" where
  "whisper_model_id model =
     (if (case url model of None \<Rightarrow> False
          | Some u \<Rightarrow> u \<noteq> [] \<and> contains (ascii ''huggingface.co'') u)
      then
        (let parts = split_on 47 (rstrip_char 47 (the (url model)))
         in if length parts \<ge> 2
            then parts ! (length parts - 2) @ [47] @ parts ! (length parts - 1)
            else model_id model)
      else if model_id model = ascii ''phowhisper-tiny'' then ascii ''vinai/PhoWhisper-tiny''
      else if model_id model = ascii ''phowhisper-base'' then ascii ''vinai/PhoWhisper-base''
      else if model_id model = ascii ''phowhisper-small'' then ascii ''vinai/PhoWhisper-small''
      else if model_id model = ascii ''phowhisper-medium'' then ascii ''vinai/PhoWhisper-medium''
      else if model_id model = ascii ''phowhisper-large-v2''
        then ascii ''vinai/PhoWhisper-large-v2''
      else model_id model)"

text \<open>The part of \<open>transcribe_whisper\<close> under the comment "Cache loaded models".\<close>

definition whisper_load_model ::
  "'p whisper \<Rightarrow> 'c model \<Rightarrow> (ustr \<rightharpoonup> 'p) \<Rightarrow> world
     \<Rightarrow> (error + 'p) \<times> (ustr \<rightharpoonup> 'p) \<times> world" where
  "whisper_load_model lib model cache w =
     (let wid = whisper_model_id model
      in case cache wid of
           Some transcriber \<Rightarrow> (Inr transcriber, cache, w)
         | None \<Rightarrow>
             (let w = log_event (LoadPipeline wid) w
              in case pipeline lib wid of
                   Inl e \<Rightarrow> (Inl (reraise LoadFailed e), cache, w)
                 | Inr transcriber \<Rightarrow> (Inr transcriber, cache(wid \<mapsto> transcriber), w)))"

text \<open>
  \<open>transcribe_whisper\<close> after the pipeline is there, in two parts: from the
  collection of the audio to the stripped text of the result (\<open>None\<close> where the
  function returns the empty string for want of audio); and the lines from
  \<open>if not text\<close> on, with the text that is passed to \<open>finalize_transcript\<close> named.
\<close>

definition whisper_recognize ::
  "'p whisper \<Rightarrow> 'p \<Rightarrow> bytes list \<Rightarrow> world \<Rightarrow> (error + ustr option) \<times> world" where
  "whisper_recognize lib transcriber audio_stream w =
     (let audio_bytes = collect_audio audio_stream
      in if audio_bytes = [] then (Inr None, w)
         else
           (case samples audio_bytes of
              Inl e \<Rightarrow> (Inl e, w)
            | Inr audio_samples \<Rightarrow>
                (let w = log_event RunPipeline w
                 in case transcriber_text lib transcriber audio_samples of
                      Inl e \<Rightarrow> (Inl (reraise TranscriptionFailed e), w)
                    | Inr text \<Rightarrow> (Inr (Some (strip text)), w))))"

definition whisper_finalize_input :: "(ustr \<Rightarrow> ustr) \<Rightarrow> ustr \<Rightarrow> ustr" where
  "whisper_finalize_input casing_func text =
     (let text = casing_func text;
          normalized = rstrip_char 46 text
      in normalized)"

definition whisper_phrase ::
  "(ustr \<Rightarrow> ustr) \<Rightarrow> (ustr \<Rightarrow> ustr) \<Rightarrow> 'c model \<Rightarrow> ustr \<Rightarrow> ustr" where
  "whisper_phrase casing_func decode_meta model text =
     (if text = [] then []
      else finalize_transcript decode_meta model (whisper_finalize_input casing_func text))"

definition transcribe_whisper ::
  "'p whisper \<Rightarrow> ('c \<Rightarrow> ustr \<Rightarrow> ustr) \<Rightarrow> (ustr \<Rightarrow> ustr) \<Rightarrow> 'c model \<Rightarrow> settings
     \<Rightarrow> bytes list \<Rightarrow> (ustr \<rightharpoonup> 'p) \<Rightarrow> world
     \<Rightarrow> (error + ustr) \<times> (ustr \<rightharpoonup> 'p) \<times> world" where
  "transcribe_whisper lib get_function decode_meta model settings audio_stream cache w =
     (if \<not> transformers_importable lib then (Inl (TranscribingError MissingDependency), cache, w)
      else
        (case whisper_load_model lib model cache w of
           (Inl e, cache, w) \<Rightarrow> (Inl e, cache, w)
         | (Inr transcriber, cache, w) \<Rightarrow>
             (let casing_func = get_function (casing model)
              in case whisper_recognize lib transcriber audio_stream w of
                   (Inl e, w) \<Rightarrow> (Inl e, cache, w)
                 | (Inr None, w) \<Rightarrow> (Inr [], cache, w)
                 | (Inr (Some text), w) \<Rightarrow>
                     (Inr (whisper_phrase casing_func decode_meta model text), cache, w))))"

section \<open>transcribe_vietasr.py: loading and transcription\<close>

datatype device = Cuda nat | Cpu

text \<open>The dataclass \<open>_Resources\<close>.\<close>

record ('m, 'f) vietasr_resources =
  res_model :: 'm
  res_fbank :: 'f
  res_device :: device
  res_tokens :: "ustr list"

text \<open>
  What \<open>encoder_out\<close> is to the search: its rank, its first dimension, and the
  packed sequence \<open>torch\<close> makes of it and \<open>encoder_out_lens\<close>.
\<close>

record 'e encoder_output =
  out_dim :: nat
  out_size0 :: nat
  out_packed :: "'e packed_sequence"

text \<open>
  \<open>torch\<close> and \<open>kaldifeat\<close>: whether the three imports succeed, whether CUDA is
  available, \<open>torch.jit.load\<close> with the two calls that follow it, the feature
  extractor made of the options, Python's \<open>int\<close> with the two limits of the
  interpreter that \<open>_read_tokens\<close> meets (\<open>sys.maxsize\<close> and the room for a
  list), the feature extraction, padding and encoder call on the samples, and the
  decoder and joiner of a loaded model.
\<close>

record ('m, 'f, 'e, 'd) vietasr =
  torch_importable :: bool
  pad_sequence_importable :: bool
  kaldifeat_importable :: bool
  cuda_is_available :: bool
  jit_load :: "path \<Rightarrow> device \<Rightarrow> exc + 'm"
  make_fbank :: "device \<Rightarrow> 'f"
  builtin_int :: "ustr \<Rightarrow> int option"
  sys_maxsize :: nat
  sys_list_capacity :: nat
  run_encoder :: "'m \<Rightarrow> 'f \<Rightarrow> int list \<Rightarrow> 'e encoder_output"
  transducer_of :: "'m \<Rightarrow> ('e, 'd) transducer"

definition vietasr_require_dependencies :: "('m, 'f, 'e, 'd) vietasr \<Rightarrow> error + unit" where
  "vietasr_require_dependencies lib =
     (if \<not> torch_importable lib then Inl (TranscribingError MissingDependency)
      else if \<not> pad_sequence_importable lib then Inl (TranscribingError MissingDependency)
      else if \<not> kaldifeat_importable lib then Inl (TranscribingError MissingDependency)
      else Inr ())"

text \<open>
  \<open>_read_tokens(tokens_path)\<close> on the file system of the model. Binary content is
  taken to be undecodable from its first byte on.
\<close>

definition read_tokens_file ::
  "(ustr \<Rightarrow> int option) \<Rightarrow> nat \<Rightarrow> nat \<Rightarrow> path \<Rightarrow> world \<Rightarrow> error + ustr list" where
  "read_tokens_file int_of maxsize capacity tokens_path w =
     (case files w tokens_path of
        None \<Rightarrow> Inl (Raised (Exception (ascii ''FileNotFoundError'')))
      | Some (Wav b) \<Rightarrow> read_tokens int_of maxsize capacity (Garbled [])
      | Some (Lines token_lines) \<Rightarrow> read_tokens int_of maxsize capacity (Text token_lines)
      | Some (Broken token_lines) \<Rightarrow> read_tokens int_of maxsize capacity (Garbled token_lines))"

text \<open>\<open>_load_resources\<close> of \<open>transcribe_vietasr.py\<close>, with the dictionary \<open>_RESOURCES\<close>.\<close>

definition vietasr_load_resources ::
  "('m, 'f, 'e, 'd) vietasr \<Rightarrow> 'c model \<Rightarrow> settings \<Rightarrow> (path \<rightharpoonup> ('m, 'f) vietasr_resources)
     \<Rightarrow> world
     \<Rightarrow> (error + ('m, 'f) vietasr_resources) \<times> (path \<rightharpoonup> ('m, 'f) vietasr_resources) \<times> world"
  where
  "vietasr_load_resources lib model settings cache w =
     (let model_dir = model_data_dir settings (model_id model)
      in case mkdir model_dir w of
           (Inl e, w) \<Rightarrow> (Inl e, cache, w)
         | (Inr u, w) \<Rightarrow>
             (case cache model_dir of
               Some cached \<Rightarrow> (Inr cached, cache, w)
             | None \<Rightarrow>
                 (let checkpoint_path = path_join model_dir (ascii ''cpu_jit.pt'');
                      tokens_path = path_join model_dir (ascii ''tokens.txt'');
                      missing_files =
                        (if \<not> path_exists checkpoint_path w then [checkpoint_path] else [])
                        @ (if \<not> path_exists tokens_path w then [tokens_path] else []);
                      w = log_event (Exists tokens_path) (log_event (Exists checkpoint_path) w)
                  in if missing_files \<noteq> []
                     then (Inl (TranscribingError (MissingAssets missing_files)), cache, w)
                     else
                       (let device = (if cuda_is_available lib then Cuda 0 else Cpu);
                            w = log_event (LoadModel checkpoint_path) w
                        in case jit_load lib checkpoint_path device of
                             Inl e \<Rightarrow> (Inl (Raised e), cache, w)
                           | Inr scripted_model \<Rightarrow>
                               (let fbank = make_fbank lib device;
                                    w = log_event (ReadFile tokens_path) w
                                in case read_tokens_file (builtin_int lib) (sys_maxsize lib)
                                          (sys_list_capacity lib) tokens_path w of
                                     Inl e \<Rightarrow> (Inl e, cache, w)
                                   | Inr tokens \<Rightarrow>
                                       if tokens = []
                                       then (Inl (TranscribingError (NoTokensLoaded tokens_path)),
                                             cache, w)
                                       else
                                         (let resources =
                                                \<lparr>res_model = scripted_model, res_fbank = fbank,
                                                 res_device = device, res_tokens = tokens\<rparr>
                                          in (Inr resources, cache(model_dir \<mapsto> resources), w)))))))"

text \<open>
  \<open>transcribe_vietasr\<close> after the resources are there, in two parts: from the
  collection of the audio to \<open>_tokens_to_text\<close> (\<open>None\<close> where the function
  returns the empty string before it has a text); and the lines from \<open>if not text\<close>
  on, which give the phrase.
\<close>

definition vietasr_recognize ::
  "('m, 'f, 'e, 'd) vietasr \<Rightarrow> ('m, 'f) vietasr_resources \<Rightarrow> bytes list \<Rightarrow> world
     \<Rightarrow> (error + ustr option) \<times> world" where
  "vietasr_recognize lib resources audio_stream w =
     (let audio_bytes = collect_audio audio_stream
      in if audio_bytes = [] then (Inr None, w)
         else
           (case samples audio_bytes of
              Inl e \<Rightarrow> (Inl e, w)
            | Inr waveform \<Rightarrow>
                if waveform = [] then (Inr None, w)
                else
                  (let w = log_event RunEncoder w;
                       encoder_out =
                         run_encoder lib (res_model resources) (res_fbank resources) waveform;
                       w = log_event RunGreedySearch w
                   in case greedy_search (transducer_of lib (res_model resources))
                             (out_dim encoder_out) (out_size0 encoder_out)
                             (out_packed encoder_out) of
                        Inl e \<Rightarrow> (Inl e, w)
                      | Inr hypotheses \<Rightarrow>
                          if hypotheses = [] then (Inr None, w)
                          else
                            (let token_ids = hd hypotheses
                             in (Inr (Some (tokens_to_text token_ids (res_tokens resources))),
                                 w)))))"

definition vietasr_phrase ::
  "(ustr \<Rightarrow> ustr) \<Rightarrow> (ustr \<Rightarrow> ustr) \<Rightarrow> 'c model \<Rightarrow> ustr \<Rightarrow> ustr" where
  "vietasr_phrase casing_func decode_meta model text =
     (if text = [] then []
      else
        (let text = casing_func text;
             text = strip text
         in if text = [] then [] else finalize_transcript decode_meta model text))"

definition transcribe_vietasr ::
  "('m, 'f, 'e, 'd) vietasr \<Rightarrow> ('c \<Rightarrow> ustr \<Rightarrow> ustr) \<Rightarrow> (ustr \<Rightarrow> ustr) \<Rightarrow> 'c model \<Rightarrow> settings
     \<Rightarrow> bytes list \<Rightarrow> (path \<rightharpoonup> ('m, 'f) vietasr_resources) \<Rightarrow> world
     \<Rightarrow> (error + ustr) \<times> (path \<rightharpoonup> ('m, 'f) vietasr_resources) \<times> world" where
  "transcribe_vietasr lib get_function decode_meta model settings audio_stream cache w =
     (case vietasr_require_dependencies lib of
        Inl e \<Rightarrow> (Inl e, cache, w)
      | Inr u \<Rightarrow>
          (case vietasr_load_resources lib model settings cache w of
             (Inl e, cache, w) \<Rightarrow> (Inl e, cache, w)
           | (Inr resources, cache, w) \<Rightarrow>
               (let casing_func = get_function (casing model)
                in case vietasr_recognize lib resources audio_stream w of
                     (Inl e, w) \<Rightarrow> (Inl e, cache, w)
                   | (Inr None, w) \<Rightarrow> (Inr [], cache, w)
                   | (Inr (Some text), w) \<Rightarrow>
                       (Inr (vietasr_phrase casing_func decode_meta model text), cache, w))))"

section \<open>transcribe_chunkformer.py\<close>

record 'm chunkformer_resources =
  cf_model :: 'm
  cf_device :: device

text \<open>
  What \<open>endless_decode\<close> may return, as \<open>_decode_to_text\<close> tells the cases apart.
  An object carries the string that \<open>str\<close> gives where the source applies it: for a
  dictionary inside a sequence that is \<open>str(item.get("decode", ""))\<close>.
\<close>

datatype item = ItemStr ustr | ItemDict ustr | ItemOther ustr

datatype decoded =
    DecodedNone
  | DecodedStr ustr
  | DecodedDict "item list"
  | DecodedIterable "item list"
  | DecodedOther ustr

text \<open>
  The packages \<open>chunkformer\<close>, \<open>huggingface_hub\<close> and \<open>torch\<close>, the path
  component of a URL (\<open>urlparse(url).path\<close>), and \<open>tempfile.mkstemp\<close>. A download
  returns the files of the file system as it leaves them.
\<close>

record 'm chunkformer =
  chunkformer_importable :: bool
  huggingface_hub_importable :: bool
  cf_torch_importable :: bool
  cf_cuda_is_available :: bool
  from_pretrained :: "path \<Rightarrow> world \<Rightarrow> exc + 'm"
  snapshot_download :: "ustr \<Rightarrow> path \<Rightarrow> world \<Rightarrow> exc + (path \<rightharpoonup> content)"
  url_path :: "ustr \<Rightarrow> ustr"
  mkstemp :: "world \<Rightarrow> path"
  endless_decode :: "'m \<Rightarrow> path \<Rightarrow> world \<Rightarrow> exc + decoded"

definition chunkformer_require_dependencies :: "'m chunkformer \<Rightarrow> error + unit" where
  "chunkformer_require_dependencies lib =
     (if \<not> chunkformer_importable lib then Inl (TranscribingError MissingDependency)
      else if \<not> huggingface_hub_importable lib then Inl (TranscribingError MissingDependency)
      else if \<not> cf_torch_importable lib then Inl (TranscribingError MissingDependency)
      else Inr ())"

definition extract_repo_id :: "'m chunkformer \<Rightarrow> 'c model \<Rightarrow> ustr option" where
  "extract_repo_id lib model =
     (if (case url model of None \<Rightarrow> False
          | Some u \<Rightarrow> u \<noteq> [] \<and> contains (ascii ''huggingface.co'') u)
      then
        (let parts = filter (\<lambda>part. part \<noteq> []) (split_on 47 (url_path lib (the (url model))))
         in if length parts \<ge> 2 then Some (parts ! 0 @ [47] @ parts ! 1) else None)
      else None)"

definition ensure_model_files ::
  "'m chunkformer \<Rightarrow> 'c model \<Rightarrow> path \<Rightarrow> world \<Rightarrow> (error + unit) \<times> world" where
  "ensure_model_files lib model model_dir w =
     (let expected_files = [ascii ''config.yaml'', ascii ''pytorch_model.pt'', ascii ''vocab.txt''];
          checked = takeWhile (\<lambda>name. path_exists (path_join model_dir name) w) expected_files;
          probed = take (length checked + 1) expected_files;
          w' = foldl (\<lambda>w name. log_event (Exists (path_join model_dir name)) w) w probed
      in if length checked = length expected_files then (Inr (), w')
         else
           (case extract_repo_id lib model of
              None \<Rightarrow> (Inl (TranscribingError RepoIdUnknown), w')
            | Some repo_id \<Rightarrow>
                (case snapshot_download lib repo_id model_dir w' of
                   Inl e \<Rightarrow> (Inl (reraise DownloadFailed e), log_event (Download repo_id model_dir) w')
                 | Inr downloaded \<Rightarrow>
                     (Inr (), log_event (Download repo_id model_dir)
                                (w'\<lparr>files := downloaded\<rparr>)))))"

text \<open>\<open>_load_resources\<close> of \<open>transcribe_chunkformer.py\<close>, with its \<open>_RESOURCES\<close>.\<close>

definition chunkformer_load_resources ::
  "'m chunkformer \<Rightarrow> 'c model \<Rightarrow> settings \<Rightarrow> (path \<rightharpoonup> 'm chunkformer_resources) \<Rightarrow> world
     \<Rightarrow> (error + 'm chunkformer_resources) \<times> (path \<rightharpoonup> 'm chunkformer_resources) \<times> world"
  where
  "chunkformer_load_resources lib model settings cache w =
     (let model_dir = model_data_dir settings (model_id model)
      in case mkdir model_dir w of
           (Inl e, w) \<Rightarrow> (Inl e, cache, w)
         | (Inr u, w) \<Rightarrow>
             (case cache model_dir of
               Some cached \<Rightarrow> (Inr cached, cache, w)
             | None \<Rightarrow>
                 (case ensure_model_files lib model model_dir w of
                    (Inl e, w) \<Rightarrow> (Inl e, cache, w)
                  | (Inr u, w) \<Rightarrow>
                      (let w' = log_event (LoadModel model_dir) w
                       in case from_pretrained lib model_dir w of
                            Inl e \<Rightarrow> (Inl (reraise LoadFailed e), cache, w')
                          | Inr chunkformer_model \<Rightarrow>
                              (let device = (if cf_cuda_is_available lib then Cuda 0 else Cpu);
                                   resources =
                                     \<lparr>cf_model = chunkformer_model, cf_device = device\<rparr>
                               in (Inr resources, cache(model_dir \<mapsto> resources), w'))))))"

text \<open>
  \<open>_write_temp_wav\<close>: the file made by \<open>mkstemp\<close>, then written as a WAV file of
  the audio. Failures of the operating system in these calls are not modelled.
\<close>

definition write_temp_wav :: "'m chunkformer \<Rightarrow> bytes \<Rightarrow> world \<Rightarrow> path \<times> world" where
  "write_temp_wav lib audio_bytes w =
     (let path = mkstemp lib w;
          w = log_event (MkTemp path) (w\<lparr>files := (files w)(path \<mapsto> Wav [])\<rparr>);
          w = log_event (WriteFile path) (w\<lparr>files := (files w)(path \<mapsto> Wav audio_bytes)\<rparr>)
      in (path, w))"

text \<open>\<open>temp_path.unlink(missing_ok=True)\<close>.\<close>

definition unlink :: "path \<Rightarrow> world \<Rightarrow> world" where
  "unlink p w = log_event (Unlink p) (w\<lparr>files := (files w)(p := None)\<rparr>)"

definition decode_to_text :: "decoded \<Rightarrow> ustr" where
  "decode_to_text d =
     (case d of
        DecodedNone \<Rightarrow> []
      | DecodedStr s \<Rightarrow> strip s
      | DecodedDict values \<Rightarrow>
          strip (join [32]
            (concat (map (\<lambda>it. case it of
                                 ItemStr s \<Rightarrow> if strip s \<noteq> [] then [strip s] else []
                               | ItemDict s \<Rightarrow> []
                               | ItemOther s \<Rightarrow> []) values)))
      | DecodedIterable its \<Rightarrow>
          strip (join [32]
            (concat (map (\<lambda>it. let piece = (case it of
                                               ItemStr s \<Rightarrow> strip s
                                             | ItemDict s \<Rightarrow> strip s
                                             | ItemOther s \<Rightarrow> strip s)
                               in if piece \<noteq> [] then [piece] else []) its)))
      | DecodedOther s \<Rightarrow> strip s)"

text \<open>
  The \<open>try\<close> statement of \<open>transcribe_chunkformer\<close>: the inner \<open>try\<close> turns an
  \<open>Exception\<close> of \<open>endless_decode\<close> into a \<open>TranscribingError\<close>, and the
  \<open>finally\<close> clause runs on every way out of it.
\<close>

definition decode_temp_file ::
  "'m chunkformer \<Rightarrow> 'm chunkformer_resources \<Rightarrow> path \<Rightarrow> world \<Rightarrow> (error + decoded) \<times> world" where
  "decode_temp_file lib resources temp_path w =
     (let outcome =
            (case endless_decode lib (cf_model resources) temp_path w of
               Inl e \<Rightarrow> Inl (reraise TranscriptionFailed e)
             | Inr decoded \<Rightarrow> Inr decoded);
          w = log_event (EndlessDecode temp_path) w;
          w = unlink temp_path w
      in (outcome, w))"

text \<open>
  \<open>transcribe_chunkformer\<close> after the resources are there, in two parts: from the
  collection of the audio to \<open>_decode_to_text\<close> (\<open>None\<close> where the function
  returns the empty string for want of audio); and the lines from \<open>if not text\<close>
  on, which give the phrase.
\<close>

definition chunkformer_recognize ::
  "'m chunkformer \<Rightarrow> 'm chunkformer_resources \<Rightarrow> bytes list \<Rightarrow> world
     \<Rightarrow> (error + ustr option) \<times> world" where
  "chunkformer_recognize lib resources audio_stream w =
     (let audio_bytes = collect_audio audio_stream
      in if audio_bytes = [] then (Inr None, w)
         else
           (case write_temp_wav lib audio_bytes w of
              (temp_path, w) \<Rightarrow>
                (case decode_temp_file lib resources temp_path w of
                   (Inl e, w) \<Rightarrow> (Inl e, w)
                 | (Inr decoded, w) \<Rightarrow> (Inr (Some (decode_to_text decoded)), w))))"

definition chunkformer_phrase ::
  "(ustr \<Rightarrow> ustr) \<Rightarrow> (ustr \<Rightarrow> ustr) \<Rightarrow> 'c model \<Rightarrow> ustr \<Rightarrow> ustr" where
  "chunkformer_phrase casing_func decode_meta model text =
     (if text = [] then []
      else
        (let text = strip (casing_func text)
         in if text = [] then [] else finalize_transcript decode_meta model text))"

definition transcribe_chunkformer ::
  "'m chunkformer \<Rightarrow> ('c \<Rightarrow> ustr \<Rightarrow> ustr) \<Rightarrow> (ustr \<Rightarrow> ustr) \<Rightarrow> 'c model \<Rightarrow> settings
     \<Rightarrow> bytes list \<Rightarrow> (path \<rightharpoonup> 'm chunkformer_resources) \<Rightarrow> world
     \<Rightarrow> (error + ustr) \<times> (path \<rightharpoonup> 'm chunkformer_resources) \<times> world" where
  "transcribe_chunkformer lib get_function decode_meta model settings audio_stream cache w =
     (case chunkformer_require_dependencies lib of
        Inl e \<Rightarrow> (Inl e, cache, w)
      | Inr u \<Rightarrow>
          (case chunkformer_load_resources lib model settings cache w of
             (Inl e, cache, w) \<Rightarrow> (Inl e, cache, w)
           | (Inr resources, cache, w) \<Rightarrow>
               (case chunkformer_recognize lib resources audio_stream w of
                  (Inl e, w) \<Rightarrow> (Inl e, cache, w)
                | (Inr None, w) \<Rightarrow> (Inr [], cache, w)
                | (Inr (Some text), w) \<Rightarrow>
                    (let casing_func = get_function (casing model)
                     in (Inr (chunkformer_phrase casing_func decode_meta model text),
                         cache, w)))))"

section \<open>Sequential requests\<close>

text \<open>
  A list of loading requests served one after the other, each on the cache and the
  world that the one before left; \<open>load\<close> is one of the three loading functions.
\<close>

fun load_all ::
  "('mdl \<Rightarrow> ('k \<rightharpoonup> 'v) \<Rightarrow> world \<Rightarrow> (error + 'v) \<times> ('k \<rightharpoonup> 'v) \<times> world)
     \<Rightarrow> 'mdl list \<Rightarrow> ('k \<rightharpoonup> 'v) \<Rightarrow> world \<Rightarrow> ('k \<rightharpoonup> 'v) \<times> world" where
  "load_all load [] cache w = (cache, w)"
| "load_all load (m # ms) cache w =
     (case load m cache w of (r, cache', w') \<Rightarrow> load_all load ms cache' w')"

section \<open>Concrete collaborators for evaluation\<close>

text \<open>
  A casing function that keeps the text, a meta decoder that keeps the text, two models
  that differ in the language family, settings, and a world in which the model
  directories exist and the VietASR assets are in place.
\<close>

definition keep_case :: "unit \<Rightarrow> ustr \<Rightarrow> ustr" where
  "keep_case c text = text"

definition keep_meta :: "ustr \<Rightarrow> ustr" where
  "keep_meta text = text"

definition vi_model :: "unit model" where
  "vi_model = \<lparr>model_id = ascii ''m'', language_family = ascii ''vi'', casing = (), url = None\<rparr>"

definition en_model :: "unit model" where
  "en_model = \<lparr>model_id = ascii ''m'', language_family = ascii ''en'', casing = (), url = None\<rparr>"

definition ex_settings :: settings where
  "ex_settings = \<lparr>models_dir = ascii ''/models'', model_data_dir = (\<lambda>i. ascii ''/data/'' @ i)\<rparr>"

definition ex_world :: world where
  "ex_world =
     \<lparr>dirs = {ascii ''/models/m'', ascii ''/data/m''},
      files = [ascii ''/data/m/cpu_jit.pt'' \<mapsto> Wav [],
               ascii ''/data/m/tokens.txt'' \<mapsto>
                 Lines [ascii ''<blk> 0'', 9601 # ascii ''ba 1'', 9601 # ascii ''x 2'']],
      refused = Map.empty,
      log = []\<rparr>"

text \<open>
  A Vosk recognizer whose state is the number of chunks it was given; it never reports
  an utterance boundary, and its final result is empty when it was given nothing and
  the two Vietnamese words for "one hour" otherwise.
\<close>

definition ex_vosk :: "(unit, nat) vosk" where
  "ex_vosk =
     \<lparr>vosk_importable = True,
      vosk_model = (\<lambda>p. Inr ()),
      kaldi_recognizer = (\<lambda>m. 0),
      accept_waveform = (\<lambda>r chunk. (False, r + 1)),
      result_text = (\<lambda>r. ([], r)),
      final_result_text = (\<lambda>r. if r = 0 then [] else join [32] [w_mot, w_gio])\<rparr>"

text \<open>A Whisper pipeline that hears "ok..", with surrounding blanks.\<close>

definition ex_whisper :: "unit whisper" where
  "ex_whisper =
     \<lparr>transformers_importable = True,
      pipeline = (\<lambda>i. Inr ()),
      transcriber_text = (\<lambda>p xs. Inr (ascii '' ok.. ''))\<rparr>"

text \<open>
  A VietASR model over the transducer that emits once: token id 1 with the tokens file
  of the world above.
\<close>

definition one_transducer :: "(nat, int list) transducer" where
  "one_transducer =
     \<lparr>blank_id = 0, context_size = 2, decoder = (\<lambda>rows. rows),
      joiner_argmax = (\<lambda>enc dec. map (\<lambda>ctx. if ctx = [0, 0] then 1 else 0) dec)\<rparr>"

definition ex_vietasr :: "(unit, unit, nat, int list) vietasr" where
  "ex_vietasr =
     \<lparr>torch_importable = True, pad_sequence_importable = True, kaldifeat_importable = True,
      cuda_is_available = False,
      jit_load = (\<lambda>p d. Inr ()),
      make_fbank = (\<lambda>d. ()),
      builtin_int = ascii_int,
      sys_maxsize = 9223372036854775807,
      sys_list_capacity = 1152921504606846975,
      run_encoder = (\<lambda>m f xs. \<lparr>out_dim = 3, out_size0 = 1, out_packed = one_utterance\<rparr>),
      transducer_of = (\<lambda>m. one_transducer)\<rparr>"

text \<open>
  Three ChunkFormer packages over present model files: one that decodes to a text, one
  whose decoding raises an \<open>Exception\<close>, and one whose decoding is interrupted.
\<close>

definition ex_chunkformer :: "(exc + decoded) \<Rightarrow> unit chunkformer" where
  "ex_chunkformer outcome =
     \<lparr>chunkformer_importable = True, huggingface_hub_importable = True,
      cf_torch_importable = True, cf_cuda_is_available = False,
      from_pretrained = (\<lambda>p w. Inr ()),
      snapshot_download = (\<lambda>r p w. Inr (files w)),
      url_path = (\<lambda>u. u),
      mkstemp = (\<lambda>w. ascii ''/tmp/a.wav''),
      endless_decode = (\<lambda>m p w. outcome)\<rparr>"

definition cf_world :: world where
  "cf_world =
     \<lparr>dirs = {ascii ''/data/m''},
      files = [ascii ''/data/m/config.yaml'' \<mapsto> Lines [],
               ascii ''/data/m/pytorch_model.pt'' \<mapsto> Wav [],
               ascii ''/data/m/vocab.txt'' \<mapsto> Lines []],
      refused = Map.empty,
      log = []\<rparr>"

text \<open>A resource set as the VietASR cache may hold it.\<close>

definition ex_resources :: "(unit, unit) vietasr_resources" where
  "ex_resources =
     \<lparr>res_model = (), res_fbank = (), res_device = Cpu, res_tokens = [ascii ''<blk>'']\<rparr>"

section \<open>Claims as worded\<close>

text \<open>
  The first claim as it is worded, for comparison with the code: casing, then the
  Vietnamese normalizer if and only if the language family is "vi", then
  \<open>decode_meta\<close>, applied to the recognized text.
\<close>

definition claimed_phrase :: "(ustr \<Rightarrow> ustr) \<Rightarrow> (ustr \<Rightarrow> ustr) \<Rightarrow> 'c model \<Rightarrow> ustr \<Rightarrow> ustr" where
  "claimed_phrase casing_func decode_meta model text =
     decode_meta
       (if language_family model = ascii ''vi''
        then normalize_vietnamese_transcript (casing_func text)
        else casing_func text)"

text \<open>
  The literal patterns that \<open>normalize_vietnamese_transcript\<close> replaces, and a text on
  which none of its substitutions triggers: no literal pattern and neither spelling of
  the cancellation verb occurs, and either the text has no token or its tokens are
  joined by single spaces and none of its runs of number words is converted.
\<close>

definition literal_patterns :: "ustr list" where
  "literal_patterns =
     [ascii ''tivi'', ascii ''ti vi'', ascii ''ti-vi'', ascii ''ti. vi'', ascii ''ga ra'']"

definition quiescent :: "ustr \<Rightarrow> bool" where
  "quiescent t \<longleftrightarrow>
     (\<forall>p \<in> set literal_patterns. \<not> contains p t)
     \<and> \<not> contains [104, 7911, 121] t \<and> \<not> contains [72, 7911, 121] t
     \<and> (split_ws t = [] \<or>
          t = join [32] (split_ws t)
          \<and> (\<forall>k < length (split_ws t). \<not> run_converts (split_ws t) k))"

text \<open>
  The lines of a token file as the claim about the loader names them. A line is blank
  when it has only whitespace, a comment when its first character after leading
  whitespace is \<open>#\<close>; its fields are its maximal runs of non-whitespace characters.
  A line is well-formed when it is neither blank nor a comment, has at least two
  fields, and its last field is an integer that is not negative; its token is then the
  first field and its index the value of the last. \<open>lines_at\<close> are the well-formed
  lines of a file with a given index, in file order, and \<open>table_size\<close> is one more
  than the largest index of a well-formed line (0 when there is none).
\<close>

definition blank_line :: "ustr \<Rightarrow> bool" where
  "blank_line line \<longleftrightarrow> list_all is_space line"

definition comment_line :: "ustr \<Rightarrow> bool" where
  "comment_line line \<longleftrightarrow>
     (case dropWhile is_space line of [] \<Rightarrow> False | c # cs \<Rightarrow> c = 35)"

definition line_fields :: "ustr \<Rightarrow> ustr list" where
  "line_fields line = split_ws line"

definition well_formed :: "(ustr \<Rightarrow> int option) \<Rightarrow> ustr \<Rightarrow> bool" where
  "well_formed py_int line \<longleftrightarrow>
     \<not> blank_line line \<and> \<not> comment_line line \<and> length (line_fields line) \<ge> 2
     \<and> (case py_int (last (line_fields line)) of None \<Rightarrow> False | Some i \<Rightarrow> i \<ge> 0)"

definition line_token :: "ustr \<Rightarrow> ustr" where
  "line_token line = hd (line_fields line)"

definition line_index :: "(ustr \<Rightarrow> int option) \<Rightarrow> ustr \<Rightarrow> nat" where
  "line_index py_int line = nat (the (py_int (last (line_fields line))))"

definition lines_at :: "(ustr \<Rightarrow> int option) \<Rightarrow> ustr list \<Rightarrow> nat \<Rightarrow> ustr list" where
  "lines_at py_int token_lines i =
     filter (\<lambda>line. well_formed py_int line \<and> line_index py_int line = i) token_lines"

definition table_size :: "(ustr \<Rightarrow> int option) \<Rightarrow> ustr list \<Rightarrow> nat" where
  "table_size py_int token_lines =
     foldr (\<lambda>line n. if well_formed py_int line then max (line_index py_int line + 1) n else n)
       token_lines 0"


section \<open>Occurrences, and the number pass over suffixes\<close>

text \<open>
  Notions used to reason about the normalizer applied twice. Two strings
  \<open>agree\<close> when one is a prefix of the other. A string \<open>q\<close> is
  \<open>clear_of\<close> a replacement text \<open>new\<close> when no occurrence of \<open>q\<close> can overlap
  an inserted \<open>new\<close>: no suffix of \<open>q\<close> agrees with \<open>new\<close>, and \<open>q\<close> agrees
  with no proper suffix of \<open>new\<close>.
\<close>

definition agree :: "ustr \<Rightarrow> ustr \<Rightarrow> bool" where
  "agree a b \<longleftrightarrow>
     take (min (length a) (length b)) a = take (min (length a) (length b)) b"

definition clear_of :: "ustr \<Rightarrow> ustr \<Rightarrow> bool" where
  "clear_of q new \<longleftrightarrow>
     list_all (\<lambda>i. \<not> agree (drop i q) new) [0..<length q]
     \<and> list_all (\<lambda>d. \<not> agree q (drop d new)) [1..<length new]"

text \<open>
  The loop of \<open>normalize_vietnamese_numbers\<close> once more, over the remaining tokens
  instead of an index: \<open>number_run\<close> is the run \<open>tokens[i:j]\<close>, \<open>after_run\<close> is
  \<open>tokens[j:]\<close>, \<open>prev_at\<close> is \<open>prev_token\<close>, \<open>head_converts\<close> is the guard of
  the conversion and \<open>suffix_loop\<close> the loop. \<open>stable\<close> says that no run of a
  token list is converted.
\<close>

definition number_run :: "ustr list \<Rightarrow> ustr list" where
  "number_run xs = takeWhile (\<lambda>t. t \<in> NUMBER_TOKENS) xs"

definition after_run :: "ustr list \<Rightarrow> ustr list" where
  "after_run xs = dropWhile (\<lambda>t. t \<in> NUMBER_TOKENS) xs"

definition prev_at :: "ustr list \<Rightarrow> nat \<Rightarrow> ustr" where
  "prev_at tokens i = (if i > 0 then tokens ! (i - 1) else [])"

definition head_converts :: "ustr \<Rightarrow> ustr list \<Rightarrow> bool" where
  "head_converts prev_token xs \<longleftrightarrow>
     xs \<noteq> [] \<and> hd xs \<in> NUMBER_TOKENS
     \<and> (let run = number_run xs; rest = after_run xs; number_value = words_to_number run
        in number_value \<noteq> None
           \<and> (rest \<noteq> [] \<and> hd rest \<in> NUMBER_FOLLOWERS
               \<or> rest = [] \<and> (case number_value of None \<Rightarrow> False | Some v \<Rightarrow> v \<ge> 10))
           \<and> \<not> (number_value = Some 0 \<and> run = [w_khong])
           \<and> \<not> (run = [w_tram] \<and> prev_token = w_phan))"

lemma after_run_shorter: "x \<in> NUMBER_TOKENS \<Longrightarrow> length (after_run (x # xs)) < Suc (length xs)"
  by (simp add: after_run_def length_dropWhile_le less_Suc_eq_le)

function suffix_loop :: "ustr \<Rightarrow> ustr list \<Rightarrow> ustr list" where
  "suffix_loop prev_token [] = []"
| "suffix_loop prev_token (x # xs) =
     (if head_converts prev_token (x # xs) then
        str_int (the (words_to_number (number_run (x # xs))))
          # suffix_loop (last (number_run (x # xs))) (after_run (x # xs))
      else x # suffix_loop x xs)"
  by pat_completeness auto
termination
  by (relation "measure (\<lambda>(p, xs). length xs)")
     (auto simp: head_converts_def after_run_shorter)

declare suffix_loop.simps(2) [simp del]

fun stable :: "ustr \<Rightarrow> ustr list \<Rightarrow> bool" where
  "stable prev_token [] = True"
| "stable prev_token (y # ys) = (\<not> head_converts prev_token (y # ys) \<and> stable y ys)"

definition at_end :: "ustr list \<Rightarrow> bool" where
  "at_end xs \<longleftrightarrow> after_run xs = []"

definition next_follows :: "ustr list \<Rightarrow> bool" where
  "next_follows xs \<longleftrightarrow> after_run xs \<noteq> [] \<and> hd (after_run xs) \<in> NUMBER_FOLLOWERS"

text \<open>
  The five literal replacements of \<open>normalize_vietnamese_transcript\<close>, which run
  before the number pass, and a text whose only whitespace is single spaces between
  its words.
\<close>

definition literal_replacements :: "ustr \<Rightarrow> ustr" where
  "literal_replacements text =
     replace [103, 97, 32, 114, 97] [103, 97, 114, 97]
       (replace [116, 105, 46, 32, 118, 105] [116, 118]
          (replace [116, 105, 45, 118, 105] [116, 118]
             (replace [116, 105, 32, 118, 105] [116, 118]
                (replace [116, 105, 118, 105] [116, 118] text))))"

definition single_spaced :: "ustr \<Rightarrow> bool" where
  "single_spaced s \<longleftrightarrow>
     (\<forall>c \<in> set s. is_space c \<longrightarrow> c = 32)
     \<and> \<not> contains [32, 32] s
     \<and> (s = [] \<or> hd s \<noteq> 32 \<and> last s \<noteq> 32)"


section \<open>The number normalizer: examples\<close>

lemmas vi_eval =
  normalize_vietnamese_numbers_def split_ws.simps is_space_def word_defs
  normalize_loop.simps scan_run.simps converts_def should_convert_def words_to_number_def
  NUMBER_TOKENS_def NUMBER_FOLLOWERS_def NUMBER_UNITS_def NUMBER_UNITS_items_def
  str_int_def str_nat.simps Let_def

lemma numbers_mot_gio:
  "normalize_vietnamese_numbers (join [32] [w_mot, w_gio]) = join [32] [[49], w_gio]"
  by (simp add: vi_eval)

lemma numbers_muoi_lam_phut:
  "normalize_vietnamese_numbers (join [32] [w_muoi, w_lam, w_phut])
     = join [32] [[49, 53], w_phut]"
  by (simp add: vi_eval)

lemma numbers_hai_muoi: "normalize_vietnamese_numbers (join [32] [w_hai, w_muoi1]) = [50, 48]"
  by (simp add: vi_eval)

lemma numbers_khong: "normalize_vietnamese_numbers w_khong = w_khong"
  by (simp add: vi_eval)

lemma numbers_phan_tram:
  "normalize_vietnamese_numbers (join [32] [w_phan, w_tram]) = join [32] [w_phan, w_tram]"
  by (simp add: vi_eval)

lemma numbers_ba: "normalize_vietnamese_numbers w_ba = w_ba"
  by (simp add: vi_eval)

text \<open>
  Claim C4. \<open>normalize_vietnamese_numbers\<close> maps "mot gio" to "1 gio", "muoi lam
  phut" to "15 phut" and a final "hai muoi" to "20" (code points 50, 48), and returns
  "khong" alone, "phan tram" and a lone final "ba" unchanged. (The words are the
  Vietnamese ones of the source, written with diacritics there.)
\<close>

theorem C4_number_examples:
  "normalize_vietnamese_numbers (join [32] [w_mot, w_gio]) = join [32] [[49], w_gio]
   \<and> normalize_vietnamese_numbers (join [32] [w_muoi, w_lam, w_phut])
       = join [32] [[49, 53], w_phut]
   \<and> normalize_vietnamese_numbers (join [32] [w_hai, w_muoi1]) = [50, 48]
   \<and> normalize_vietnamese_numbers w_khong = w_khong
   \<and> normalize_vietnamese_numbers (join [32] [w_phan, w_tram]) = join [32] [w_phan, w_tram]
   \<and> normalize_vietnamese_numbers w_ba = w_ba"
  using numbers_mot_gio numbers_muoi_lam_phut numbers_hai_muoi numbers_khong
    numbers_phan_tram numbers_ba
  by blast

theorem C4_number_examples_witness:
  "normalize_vietnamese_numbers [109, 7897, 116, 32, 103, 105, 7901] = [49, 32, 103, 105, 7901]
   \<and> normalize_vietnamese_numbers [104, 97, 105, 32, 109, 432, 417, 105] = [50, 48]
   \<and> normalize_vietnamese_numbers [98, 97] = [98, 97]"
  using C4_number_examples by (simp add: word_defs)




section \<open>The number normalizer: tokens and whitespace\<close>

lemma split_ws_Nil [simp]: "split_ws [] = []"
  by (simp add: split_ws.simps)

lemma split_ws_space: "is_space c \<Longrightarrow> split_ws (c # s) = split_ws s"
  by (simp add: split_ws.simps [of "c # s"] split_ws.simps [of s])

lemma split_ws_nonspace:
  "\<not> is_space c \<Longrightarrow>
   split_ws (c # s) = (c # takeWhile (\<lambda>x. \<not> is_space x) s) # split_ws (dropWhile (\<lambda>x. \<not> is_space x) s)"
  by (simp add: split_ws.simps [of "c # s"])

lemma takeWhile_all: "\<forall>x \<in> set xs. P x \<Longrightarrow> takeWhile P xs = xs"
  by simp

lemma dropWhile_all: "\<forall>x \<in> set xs. P x \<Longrightarrow> dropWhile P xs = []"
  by simp

lemma split_ws_tokens: "\<forall>t \<in> set (split_ws s). is_token t"
proof (induction "length s" arbitrary: s rule: less_induct)
  case less
  show ?case
  proof (cases s)
    case Nil
    then show ?thesis by simp
  next
    case (Cons c s')
    show ?thesis
    proof (cases "is_space c")
      case True
      with less [of s'] Cons show ?thesis by (simp add: split_ws_space)
    next
      case False
      have "length (dropWhile (\<lambda>x. \<not> is_space x) s') < length s"
        using Cons length_dropWhile_le [of "\<lambda>x. \<not> is_space x" s'] by simp
      then have "\<forall>t \<in> set (split_ws (dropWhile (\<lambda>x. \<not> is_space x) s')). is_token t"
        by (rule less)
      moreover have "is_token (c # takeWhile (\<lambda>x. \<not> is_space x) s')"
        using False by (auto simp: is_token_def dest: set_takeWhileD)
      ultimately show ?thesis using False Cons by (simp add: split_ws_nonspace)
    qed
  qed
qed

lemma split_ws_token_append:
  assumes "is_token t"
  shows "split_ws (t @ 32 # s) = t # split_ws s"
proof -
  from assms obtain c cs where t: "t = c # cs" by (cases t) (auto simp: is_token_def)
  from assms t have nsp: "\<not> is_space c" and rest: "\<forall>x \<in> set cs. \<not> is_space x"
    by (auto simp: is_token_def)
  have sp: "is_space 32" by (simp add: is_space_def)
  have tw: "takeWhile (\<lambda>x. \<not> is_space x) (cs @ 32 # s) = cs"
    using rest sp by (simp add: takeWhile_append2 )
  have dw: "dropWhile (\<lambda>x. \<not> is_space x) (cs @ 32 # s) = 32 # s"
    using rest sp by (simp add: dropWhile_append2)
  show ?thesis
    using nsp tw dw sp by (simp add: t split_ws_nonspace split_ws_space)
qed

lemma split_ws_token: "is_token t \<Longrightarrow> split_ws t = [t]"
proof -
  assume a: "is_token t"
  then obtain c cs where t: "t = c # cs" by (cases t) (auto simp: is_token_def)
  from a t have nsp: "\<not> is_space c" and rest: "\<forall>x \<in> set cs. \<not> is_space x"
    by (auto simp: is_token_def)
  from rest have tw: "takeWhile (\<lambda>x. \<not> is_space x) cs = cs"
    by (rule takeWhile_all)
  from rest have dw: "dropWhile (\<lambda>x. \<not> is_space x) cs = []"
    by (rule dropWhile_all)
  show ?thesis
    unfolding t split_ws_nonspace [OF nsp] tw dw split_ws_Nil by (rule refl)
qed

lemma split_ws_join: "\<forall>t \<in> set ts. is_token t \<Longrightarrow> split_ws (join [32] ts) = ts"
proof (induction ts rule: induct_list012)
  case 1
  then show ?case by simp
next
  case (2 x)
  then show ?case by (simp add: split_ws_token)
next
  case (3 x y ys)
  then show ?case by (simp add: split_ws_token_append)
qed

lemma str_nat_digits: "str_nat n \<noteq> [] \<and> (\<forall>c \<in> set (str_nat n). 48 \<le> c \<and> c \<le> 57)"
proof (induction n rule: str_nat.induct)
  case (1 n)
  show ?case
  proof (cases "n < 10")
    case True
    then show ?thesis by (simp add: str_nat.simps [of n])
  next
    case False
    with "1.IH" have "str_nat (n div 10) \<noteq> [] \<and> (\<forall>c \<in> set (str_nat (n div 10)). 48 \<le> c \<and> c \<le> 57)"
      by simp
    moreover have "n mod 10 < 10" by simp
    ultimately show ?thesis using False by (auto simp: str_nat.simps [of n])
  qed
qed

lemma str_int_token: "is_token (str_int i)"
  using str_nat_digits [of "nat i"] str_nat_digits [of "nat (- i)"]
  by (auto simp: is_token_def str_int_def is_space_def)


lemma normalize_loop_done: "\<not> i < length tokens \<Longrightarrow> normalize_loop tokens i acc = acc"
  by (simp add: normalize_loop.simps [of tokens i acc])

lemma normalize_loop_convert:
  "i < length tokens \<Longrightarrow> run_converts tokens i \<Longrightarrow>
   normalize_loop tokens i acc = normalize_loop tokens (scan_run tokens i) (acc @ [run_value tokens i])"
  by (simp add: normalize_loop.simps [of tokens i acc] run_converts_def run_value_def)

lemma normalize_loop_copy:
  "i < length tokens \<Longrightarrow> \<not> run_converts tokens i \<Longrightarrow>
   normalize_loop tokens i acc = normalize_loop tokens (i + 1) (acc @ [tokens ! i])"
  by (auto simp: normalize_loop.simps [of tokens i acc] run_converts_def)

lemma run_value_token: "is_token (run_value tokens i)"
  by (simp add: run_value_def str_int_token)

lemma normalize_loop_tokens:
  "\<forall>t \<in> set tokens. is_token t \<Longrightarrow> \<forall>t \<in> set acc. is_token t \<Longrightarrow>
   \<forall>t \<in> set (normalize_loop tokens i acc). is_token t"
proof (induction tokens i acc rule: normalize_loop.induct)
  case (1 tokens i acc)
  show ?case
  proof (cases "i < length tokens")
    case False
    then have "normalize_loop tokens i acc = acc" by (rule normalize_loop_done)
    with "1.prems"(2) show ?thesis by simp
  next
    case inb: True
    show ?thesis
    proof (cases "run_converts tokens i")
      case True
      then have c: "tokens ! i \<in> NUMBER_TOKENS \<and> converts tokens i (scan_run tokens i)"
        by (simp add: run_converts_def)
      have "\<forall>t \<in> set (acc @ [run_value tokens i]). is_token t"
        using "1.prems"(2) by (simp add: run_value_token)
      then have "\<forall>t \<in> set (normalize_loop tokens (scan_run tokens i)
                    (acc @ [run_value tokens i])). is_token t"
        unfolding run_value_def by (rule "1.IH"(1) [OF inb c "1.prems"(1)])
      then show ?thesis by (simp only: normalize_loop_convert [OF inb True])
    next
      case False
      then have c: "\<not> (tokens ! i \<in> NUMBER_TOKENS \<and> converts tokens i (scan_run tokens i))"
        by (simp add: run_converts_def)
      have "\<forall>t \<in> set (acc @ [tokens ! i]). is_token t"
        using "1.prems" inb by simp
      then have "\<forall>t \<in> set (normalize_loop tokens (i + 1) (acc @ [tokens ! i])). is_token t"
        by (rule "1.IH"(2) [OF inb c "1.prems"(1)])
      then show ?thesis by (simp only: normalize_loop_copy [OF inb False])
    qed
  qed
qed

lemma normalize_loop_unconverted:
  "\<forall>k < length tokens. \<not> run_converts tokens k \<Longrightarrow>
   normalize_loop tokens i acc = acc @ drop i tokens"
proof (induction tokens i acc rule: normalize_loop.induct)
  case (1 tokens i acc)
  show ?case
  proof (cases "i < length tokens")
    case False
    then show ?thesis by (simp add: normalize_loop_done)
  next
    case inb: True
    with "1.prems" have nr: "\<not> run_converts tokens i" by simp
    then have nc: "\<not> (tokens ! i \<in> NUMBER_TOKENS \<and> converts tokens i (scan_run tokens i))"
      by (simp add: run_converts_def)
    from "1.IH"(2) [OF inb nc "1.prems"]
    have "normalize_loop tokens (i + 1) (acc @ [tokens ! i]) = (acc @ [tokens ! i]) @ drop (i + 1) tokens" .
    then have "normalize_loop tokens i acc = (acc @ [tokens ! i]) @ drop (i + 1) tokens"
      by (simp only: normalize_loop_copy [OF inb nr])
    also have "\<dots> = acc @ drop i tokens"
      using inb by (simp add: Cons_nth_drop_Suc)
    finally show ?thesis .
  qed
qed

text \<open>
  Claim C9. A text with no token (empty or all whitespace) is returned as it is. A
  text with at least one token is returned as the normalized tokens joined by single
  spaces: splitting the result gives back exactly those tokens, so the result is its
  own single-space join (no leading or trailing whitespace, no whitespace run); and
  when no run is converted the result is the original tokens joined by single spaces.
\<close>

theorem C9_whitespace:
  "(split_ws text = [] \<longrightarrow> normalize_vietnamese_numbers text = text)
   \<and> (split_ws text \<noteq> [] \<longrightarrow>
        normalize_vietnamese_numbers text = join [32] (normalize_loop (split_ws text) 0 [])
        \<and> split_ws (normalize_vietnamese_numbers text) = normalize_loop (split_ws text) 0 []
        \<and> normalize_vietnamese_numbers text
            = join [32] (split_ws (normalize_vietnamese_numbers text))
        \<and> ((\<forall>k < length (split_ws text). \<not> run_converts (split_ws text) k) \<longrightarrow>
             normalize_vietnamese_numbers text = join [32] (split_ws text)))"
proof (intro conjI impI)
  assume "split_ws text = []"
  then show "normalize_vietnamese_numbers text = text"
    by (simp add: normalize_vietnamese_numbers_def)
next
  assume ne: "split_ws text \<noteq> []"
  then show eq: "normalize_vietnamese_numbers text = join [32] (normalize_loop (split_ws text) 0 [])"
    by (simp add: normalize_vietnamese_numbers_def)
  have "\<forall>t \<in> set (normalize_loop (split_ws text) 0 []). is_token t"
    by (rule normalize_loop_tokens) (simp_all add: split_ws_tokens)
  then have "split_ws (join [32] (normalize_loop (split_ws text) 0 [])) = normalize_loop (split_ws text) 0 []"
    by (rule split_ws_join)
  with eq show sp: "split_ws (normalize_vietnamese_numbers text) = normalize_loop (split_ws text) 0 []"
    by simp
  from eq sp show "normalize_vietnamese_numbers text
            = join [32] (split_ws (normalize_vietnamese_numbers text))"
    by simp
next
  assume ne: "split_ws text \<noteq> []"
    and nc: "\<forall>k < length (split_ws text). \<not> run_converts (split_ws text) k"
  from nc have "normalize_loop (split_ws text) 0 [] = [] @ drop 0 (split_ws text)"
    by (rule normalize_loop_unconverted)
  with ne show "normalize_vietnamese_numbers text = join [32] (split_ws text)"
    by (simp add: normalize_vietnamese_numbers_def)
qed



theorem C9_whitespace_witness:
  "normalize_vietnamese_numbers [32, 9, 32] = [32, 9, 32]
   \<and> normalize_vietnamese_numbers [32, 98, 97, 9, 32, 120, 32] = [98, 97, 32, 120]"
proof -
  have a: "split_ws [32, 9, 32] = []"
    by (simp add: split_ws.simps is_space_def)
  have b: "split_ws [32, 98, 97, 9, 32, 120, 32] = [[98, 97], [120]]"
    by (simp add: split_ws.simps is_space_def)
  have n0: "\<not> run_converts [[98, 97], [120]] 0"
    by (simp add: run_converts_def vi_eval)
  have n1: "\<not> run_converts [[98, 97], [120]] (Suc 0)"
    by (simp add: run_converts_def vi_eval)
  have nb: "\<forall>k < length [[98, 97], [120::nat]]. \<not> run_converts [[98, 97], [120]] k"
    using n0 n1 by (auto simp: less_Suc_eq)
  from a C9_whitespace [of "[32, 9, 32]"]
  have 1: "normalize_vietnamese_numbers [32, 9, 32] = [32, 9, 32]" by blast
  from nb C9_whitespace [of "[32, 98, 97, 9, 32, 120, 32]"]
  have "normalize_vietnamese_numbers [32, 98, 97, 9, 32, 120, 32] = join [32] [[98, 97], [120]]"
    unfolding b by blast
  then have 2: "normalize_vietnamese_numbers [32, 98, 97, 9, 32, 120, 32] = [98, 97, 32, 120]"
    by simp
  from 1 2 show ?thesis by (rule conjI)
qed

section \<open>The token table loader\<close>

subsection \<open>Lines as the loop reads them and as the claim names them\<close>

lemma strip_empty_iff: "strip line = [] \<longleftrightarrow> blank_line line"
proof -
  have "dropWhile is_space line = [] \<longleftrightarrow> (\<forall>c \<in> set line. is_space c)"
    by (simp add: dropWhile_eq_Nil_conv)
  moreover have "strip line = [] \<longleftrightarrow> dropWhile is_space line = []"
  proof
    assume "strip line = []"
    then have "dropWhile is_space (rev (dropWhile is_space line)) = []"
      by (simp add: strip_def)
    then have "\<forall>c \<in> set (dropWhile is_space line). is_space c"
      by (simp add: dropWhile_eq_Nil_conv)
    then show "dropWhile is_space line = []"
      using hd_dropWhile [of is_space line] by (cases "dropWhile is_space line") auto
  next
    assume e: "dropWhile is_space line = []"
    show "strip line = []" unfolding strip_def e by simp
  qed
  ultimately show ?thesis by (simp add: blank_line_def list_all_iff)
qed

lemma strip_hd:
  assumes "strip line \<noteq> []"
  shows "hd (strip line) = hd (dropWhile is_space line)"
proof -
  let ?d = "dropWhile is_space line"
  have "strip line = []" if e: "?d = []" unfolding strip_def e by simp
  with assms have ne: "?d \<noteq> []" by blast
  then have h: "\<not> is_space (hd ?d)" by (rule hd_dropWhile)
  from ne obtain c cs where d: "?d = c # cs" by (cases ?d) auto
  with h have c: "\<not> is_space c" by simp
  have "strip line = rev (dropWhile is_space (rev cs @ [c]))" by (simp add: strip_def d)
  also have "\<dots> = c # rev (if \<forall>x \<in> set cs. is_space x then [] else dropWhile is_space (rev cs))"
    using c by (simp add: dropWhile_append3 dropWhile_append2 dropWhile_eq_Nil_conv)
  finally show ?thesis by (simp add: d)
qed

lemma split_ws_dropWhile: "split_ws (dropWhile is_space s) = split_ws s"
  by (induction s) (simp_all add: split_ws_space)

lemma split_ws_spaces: "\<forall>c \<in> set s. is_space c \<Longrightarrow> split_ws s = []"
  by (induction s) (simp_all add: split_ws_space)

lemma split_ws_trailing:
  "\<forall>c \<in> set b. is_space c \<Longrightarrow> split_ws (a @ b) = split_ws a"
proof (induction a rule: length_induct)
  case (1 a)
  show ?case
  proof (cases a)
    case Nil
    with "1.prems" show ?thesis by (simp add: split_ws_spaces)
  next
    case (Cons c r)
    show ?thesis
    proof (cases "is_space c")
      case True
      with "1.IH" "1.prems" Cons show ?thesis by (simp add: split_ws_space)
    next
      case False
      let ?t = "takeWhile (\<lambda>x. \<not> is_space x) r"
      let ?d = "dropWhile (\<lambda>x. \<not> is_space x) r"
      have b: "takeWhile (\<lambda>x. \<not> is_space x) b = []" "dropWhile (\<lambda>x. \<not> is_space x) b = b"
        using "1.prems" by (cases b; simp)+
      have t: "takeWhile (\<lambda>x. \<not> is_space x) (r @ b) = ?t"
        and d: "dropWhile (\<lambda>x. \<not> is_space x) (r @ b) = ?d @ b"
        using b by (induction r) simp_all
      have "length ?d < length a" using Cons by (simp add: length_dropWhile_le less_Suc_eq_le)
      with "1.IH" "1.prems" have "split_ws (?d @ b) = split_ws ?d" by blast
      with False Cons t d show ?thesis by (simp add: split_ws_nonspace)
    qed
  qed
qed

lemma split_ws_strip: "split_ws (strip line) = split_ws line"
proof -
  let ?d = "dropWhile is_space line"
  have "rev ?d = takeWhile is_space (rev ?d) @ dropWhile is_space (rev ?d)" by simp
  then have "?d = strip line @ rev (takeWhile is_space (rev ?d))"
    unfolding strip_def by (metis rev_append rev_rev_ident)
  moreover have "\<forall>c \<in> set (rev (takeWhile is_space (rev ?d))). is_space c"
    by (auto dest: set_takeWhileD)
  ultimately have "split_ws ?d = split_ws (strip line)"
    using split_ws_trailing by metis
  then show ?thesis by (simp add: split_ws_dropWhile)
qed

lemma line_entry_well_formed:
  "line_entry py_int line =
     (if well_formed py_int line then Some (line_token line, line_index py_int line) else None)"
proof (cases "strip line = []")
  case True
  then show ?thesis by (simp add: line_entry_def well_formed_def strip_empty_iff [symmetric])
next
  case False
  then have nb: "\<not> blank_line line" by (simp add: strip_empty_iff)
  from False have "take 1 (strip line) = [hd (strip line)]" by (cases "strip line") simp_all
  then have c: "take 1 (strip line) = ascii ''#'' \<longleftrightarrow> comment_line line"
    using False strip_hd [OF False]
    by (cases "dropWhile is_space line") (auto simp: comment_line_def ascii_def strip_def)
  show ?thesis
    using False nb c
    by (auto simp: line_entry_def well_formed_def line_token_def line_index_def line_fields_def
        split_ws_strip Let_def split: option.splits)
qed

subsection \<open>The table\<close>

lemma store_token_fits:
  assumes "index < list_capacity" and "list_capacity \<le> maxsize"
  shows "store_token maxsize list_capacity tokens (token, index) =
     Inr ((tokens @ replicate (index + 1 - length tokens) [])[index := token])"
  using assms by (auto simp: store_token_def list_assign_def Let_def)

lemma store_token_beyond:
  assumes "list_capacity \<le> index" and "length tokens \<le> list_capacity"
  shows "store_token maxsize list_capacity tokens (token, index) = Inl OverflowError
       \<or> store_token maxsize list_capacity tokens (token, index) = Inl MemoryError"
  using assms by (auto simp: store_token_def Let_def)

lemma lines_at_Cons:
  "lines_at py_int (line # rest) i =
     (if well_formed py_int line \<and> line_index py_int line = i
      then line # lines_at py_int rest i else lines_at py_int rest i)"
  by (simp add: lines_at_def)

lemma table_size_Cons:
  "table_size py_int (line # rest) =
     (if well_formed py_int line
      then max (line_index py_int line + 1) (table_size py_int rest)
      else table_size py_int rest)"
  by (simp add: table_size_def)

lemma table_size_bound:
  "line \<in> set token_lines \<Longrightarrow> well_formed py_int line \<Longrightarrow>
   line_index py_int line < table_size py_int token_lines"
  by (induction token_lines) (auto simp: table_size_Cons)

lemma read_tokens_loop_spec:
  assumes "list_capacity \<le> maxsize"
    and "\<forall>line \<in> set token_lines. well_formed py_int line \<longrightarrow> line_index py_int line < list_capacity"
  shows "\<exists>result. read_tokens_loop py_int maxsize list_capacity tokens token_lines = Inr result
     \<and> length result = max (length tokens) (table_size py_int token_lines)
     \<and> (\<forall>i < length result. result ! i =
           (if lines_at py_int token_lines i = []
            then (if i < length tokens then tokens ! i else [])
            else line_token (last (lines_at py_int token_lines i))))"
  using assms(2)
proof (induction token_lines arbitrary: tokens)
  case Nil
  then show ?case by (simp add: lines_at_def table_size_def)
next
  case (Cons line rest)
  from Cons.prems have rest:
    "\<forall>line \<in> set rest. well_formed py_int line \<longrightarrow> line_index py_int line < list_capacity"
    by simp
  show ?case
  proof (cases "well_formed py_int line")
    case False
    then have e:
      "read_tokens_loop py_int maxsize list_capacity tokens (line # rest)
         = read_tokens_loop py_int maxsize list_capacity tokens rest"
      "table_size py_int (line # rest) = table_size py_int rest"
      "\<And>i. lines_at py_int (line # rest) i = lines_at py_int rest i"
      by (simp_all add: line_entry_well_formed lines_at_Cons table_size_Cons)
    show ?thesis unfolding e by (rule Cons.IH [OF rest])
  next
    case True
    define token where "token = line_token line"
    define index where "index = line_index py_int line"
    define tokens' where
      "tokens' = (tokens @ replicate (index + 1 - length tokens) [])[index := token]"
    from True Cons.prems have "index < list_capacity" by (simp add: index_def)
    then have st: "store_token maxsize list_capacity tokens (token, index) = Inr tokens'"
      unfolding tokens'_def using assms(1) by (rule store_token_fits)
    have len': "length tokens' = max (length tokens) (index + 1)"
      by (auto simp: tokens'_def)
    from Cons.IH [OF rest, of tokens'] obtain result where
      r: "read_tokens_loop py_int maxsize list_capacity tokens' rest = Inr result"
      and l: "length result = max (length tokens') (table_size py_int rest)"
      and v: "\<forall>i < length result. result ! i =
           (if lines_at py_int rest i = []
            then (if i < length tokens' then tokens' ! i else [])
            else line_token (last (lines_at py_int rest i)))"
      by blast
    have 1: "read_tokens_loop py_int maxsize list_capacity tokens (line # rest) = Inr result"
      using True st r by (simp add: line_entry_well_formed token_def index_def)
    have 2: "length result = max (length tokens) (table_size py_int (line # rest))"
      using l len' True by (simp add: table_size_Cons index_def)
    have 3: "result ! i =
           (if lines_at py_int (line # rest) i = []
            then (if i < length tokens then tokens ! i else [])
            else line_token (last (lines_at py_int (line # rest) i)))"
      if "i < length result" for i
    proof (cases "lines_at py_int rest i = []")
      case False
      with v that True show ?thesis by (simp add: lines_at_Cons)
    next
      case e: True
      with v that have ri: "result ! i = (if i < length tokens' then tokens' ! i else [])"
        by simp
      have "(if i < length tokens' then tokens' ! i else []) =
            (if index = i then token else if i < length tokens then tokens ! i else [])"
        by (auto simp: tokens'_def nth_append nth_list_update)
      with ri e True show ?thesis
        by (simp add: lines_at_Cons token_def index_def)
    qed
    from 1 2 3 show ?thesis by blast
  qed
qed

lemma read_tokens_loop_beyond:
  assumes "list_capacity \<le> maxsize"
  shows "length tokens \<le> list_capacity \<Longrightarrow>
     \<exists>line \<in> set token_lines. well_formed py_int line \<and> list_capacity \<le> line_index py_int line \<Longrightarrow>
     read_tokens_loop py_int maxsize list_capacity tokens token_lines = Inl OverflowError
     \<or> read_tokens_loop py_int maxsize list_capacity tokens token_lines = Inl MemoryError"
proof (induction token_lines arbitrary: tokens)
  case Nil
  then show ?case by simp
next
  case (Cons line rest)
  show ?case
  proof (cases "well_formed py_int line")
    case False
    with Cons.prems have
      "\<exists>line \<in> set rest. well_formed py_int line \<and> list_capacity \<le> line_index py_int line"
      by auto
    with Cons.IH [OF Cons.prems(1)] False show ?thesis
      by (simp add: line_entry_well_formed)
  next
    case True
    show ?thesis
    proof (cases "list_capacity \<le> line_index py_int line")
      case b: True
      from store_token_beyond [OF b Cons.prems(1), of maxsize "line_token line"] True
      show ?thesis by (auto simp: line_entry_well_formed)
    next
      case False
      then have lt: "line_index py_int line < list_capacity" by simp
      define tokens' where "tokens' =
        (tokens @ replicate (line_index py_int line + 1 - length tokens) [])
          [line_index py_int line := line_token line]"
      have st: "store_token maxsize list_capacity tokens (line_token line, line_index py_int line)
          = Inr tokens'"
        unfolding tokens'_def using lt assms by (rule store_token_fits)
      have "length tokens' \<le> list_capacity"
        using lt Cons.prems(1) by (auto simp: tokens'_def)
      moreover from False Cons.prems(2) have
        "\<exists>line \<in> set rest. well_formed py_int line \<and> list_capacity \<le> line_index py_int line"
        by auto
      ultimately have
        "read_tokens_loop py_int maxsize list_capacity tokens' rest = Inl OverflowError
         \<or> read_tokens_loop py_int maxsize list_capacity tokens' rest = Inl MemoryError"
        by (rule Cons.IH)
      with True st show ?thesis by (simp add: line_entry_well_formed)
    qed
  qed
qed

lemma read_tokens_loop_skip:
  "\<not> well_formed py_int line \<Longrightarrow>
   read_tokens_loop py_int maxsize list_capacity tokens (before @ line # rest)
     = read_tokens_loop py_int maxsize list_capacity tokens (before @ rest)"
proof (induction before arbitrary: tokens)
  case Nil
  then show ?case by (simp add: line_entry_well_formed)
next
  case (Cons b bs)
  then show ?case by (simp split: option.splits sum.splits)
qed

text \<open>
  Claim C7, as amended. Let the interpreter have room for lists of up to
  \<open>list_capacity\<close> elements, which is at most \<open>sys.maxsize\<close>. For a file whose content
  is valid UTF-8 and whose well-formed lines all have an index below that capacity,
  the loader returns a list: its length is one more than the largest index of a
  well-formed line, every such index is in range, and position \<open>i\<close> holds the token of
  the last well-formed line with index \<open>i\<close>, or the empty string when no line has that
  index. A line that is not well-formed (blank, a comment, fewer than two fields, a
  last field that is no integer or is negative) assigns nothing: the file without it
  gives the same outcome. A well-formed line with an index at or above the capacity
  makes the loader raise \<open>OverflowError\<close> or \<open>MemoryError\<close>, and a file whose content
  is not valid UTF-8 makes it raise.
\<close>

theorem C7_read_tokens:
  assumes "list_capacity \<le> maxsize"
  shows "((\<forall>line \<in> set token_lines.
             well_formed py_int line \<longrightarrow> line_index py_int line < list_capacity) \<longrightarrow>
          (\<exists>tokens. read_tokens py_int maxsize list_capacity (Text token_lines) = Inr tokens
             \<and> length tokens = table_size py_int token_lines
             \<and> (\<forall>line \<in> set token_lines.
                   well_formed py_int line \<longrightarrow> line_index py_int line < length tokens)
             \<and> (\<forall>i < length tokens. tokens ! i =
                   (if lines_at py_int token_lines i = [] then []
                    else line_token (last (lines_at py_int token_lines i))))))
     \<and> (\<not> well_formed py_int skipped \<longrightarrow>
          read_tokens py_int maxsize list_capacity (Text (before @ skipped # rest))
            = read_tokens py_int maxsize list_capacity (Text (before @ rest)))
     \<and> ((\<exists>line \<in> set token_lines.
             well_formed py_int line \<and> list_capacity \<le> line_index py_int line) \<longrightarrow>
          read_tokens py_int maxsize list_capacity (Text token_lines) = Inl OverflowError
          \<or> read_tokens py_int maxsize list_capacity (Text token_lines) = Inl MemoryError)
     \<and> (\<exists>e. read_tokens py_int maxsize list_capacity (Garbled token_lines) = Inl e)"
proof (intro conjI impI)
  assume cap: "\<forall>line \<in> set token_lines.
             well_formed py_int line \<longrightarrow> line_index py_int line < list_capacity"
  from read_tokens_loop_spec [OF assms cap, of "[]"]
  obtain tokens where r: "read_tokens py_int maxsize list_capacity (Text token_lines) = Inr tokens"
    and l: "length tokens = table_size py_int token_lines"
    and v: "\<forall>i < length tokens. tokens ! i =
                   (if lines_at py_int token_lines i = [] then []
                    else line_token (last (lines_at py_int token_lines i)))"
    by (auto simp: read_tokens_def)
  from l have "\<forall>line \<in> set token_lines.
      well_formed py_int line \<longrightarrow> line_index py_int line < length tokens"
    by (simp add: table_size_bound)
  with r l v show "\<exists>tokens. read_tokens py_int maxsize list_capacity (Text token_lines) = Inr tokens
             \<and> length tokens = table_size py_int token_lines
             \<and> (\<forall>line \<in> set token_lines.
                   well_formed py_int line \<longrightarrow> line_index py_int line < length tokens)
             \<and> (\<forall>i < length tokens. tokens ! i =
                   (if lines_at py_int token_lines i = [] then []
                    else line_token (last (lines_at py_int token_lines i))))"
    by blast
next
  assume "\<not> well_formed py_int skipped"
  then show "read_tokens py_int maxsize list_capacity (Text (before @ skipped # rest))
            = read_tokens py_int maxsize list_capacity (Text (before @ rest))"
    by (simp add: read_tokens_def read_tokens_loop_skip)
next
  assume "\<exists>line \<in> set token_lines.
             well_formed py_int line \<and> list_capacity \<le> line_index py_int line"
  with read_tokens_loop_beyond [OF assms, of "[]" token_lines py_int]
  show "read_tokens py_int maxsize list_capacity (Text token_lines) = Inl OverflowError
          \<or> read_tokens py_int maxsize list_capacity (Text token_lines) = Inl MemoryError"
    by (simp add: read_tokens_def)
next
  show "\<exists>e. read_tokens py_int maxsize list_capacity (Garbled token_lines) = Inl e"
    by (simp add: read_tokens_def split: sum.splits)
qed

lemmas tokens_eval =
  well_formed_def blank_line_def comment_line_def line_fields_def line_index_def
  line_token_def lines_at_def table_size_def is_space_def split_ws.simps ascii_int_def
  ascii_def Let_def

lemma example_well_formed:
  "filter (well_formed ascii_int) example_token_file
     = [ascii ''<blk> 0'' @ [10], 9601 # ascii ''c 3'' @ [10], ascii ''d e 1'' @ [10],
        ascii ''f 1'' @ [10]]"
  by (simp add: example_token_file_def tokens_eval)

lemma example_indices:
  "map (line_index ascii_int) (filter (well_formed ascii_int) example_token_file) = [0, 3, 1, 1]"
  unfolding example_well_formed by (simp add: tokens_eval)

lemma example_table_size: "table_size ascii_int example_token_file = 4"
  by (simp add: example_token_file_def tokens_eval)

lemma example_lines_at:
  "lines_at ascii_int example_token_file 0 = [ascii ''<blk> 0'' @ [10]]"
  "lines_at ascii_int example_token_file (Suc 0) = [ascii ''d e 1'' @ [10], ascii ''f 1'' @ [10]]"
  "lines_at ascii_int example_token_file 2 = []"
  "lines_at ascii_int example_token_file 3 = [9601 # ascii ''c 3'' @ [10]]"
  by (simp_all add: example_token_file_def tokens_eval)

lemma example_tokens:
  "line_token (ascii ''<blk> 0'' @ [10]) = ascii ''<blk>''"
  "line_token (ascii ''f 1'' @ [10]) = ascii ''f''"
  "line_token (9601 # ascii ''c 3'' @ [10]) = 9601 # ascii ''c''"
  by (simp_all add: tokens_eval)

theorem C7_read_tokens_witness:
  "read_tokens ascii_int 9223372036854775807 1152921504606846975 (Text example_token_file)
     = Inr [ascii ''<blk>'', ascii ''f'', [], 9601 # ascii ''c'']
   \<and> read_tokens ascii_int 9223372036854775807 1152921504606846975
        (Text ([ascii ''a 1''] @ ascii ''# b 0'' # [ascii ''c 0'']))
     = read_tokens ascii_int 9223372036854775807 1152921504606846975
        (Text ([ascii ''a 1''] @ [ascii ''c 0'']))
   \<and> (read_tokens ascii_int 9223372036854775807 1152921504606846975
         (Text [ascii ''a 1152921504606846975'']) = Inl OverflowError
      \<or> read_tokens ascii_int 9223372036854775807 1152921504606846975
         (Text [ascii ''a 1152921504606846975'']) = Inl MemoryError)"
proof -
  have le: "(1152921504606846975::nat) \<le> 9223372036854775807" by simp
  note c7 = C7_read_tokens [OF le, where py_int = ascii_int]
  have cap: "\<forall>line \<in> set example_token_file.
      well_formed ascii_int line \<longrightarrow> line_index ascii_int line < 1152921504606846975"
  proof (intro ballI impI)
    fix line assume "line \<in> set example_token_file" "well_formed ascii_int line"
    then have "line \<in> set (filter (well_formed ascii_int) example_token_file)" by simp
    then have "line_index ascii_int line
        \<in> set (map (line_index ascii_int) (filter (well_formed ascii_int) example_token_file))"
      by (simp only: set_map) (rule imageI)
    then show "line_index ascii_int line < 1152921504606846975"
      unfolding example_indices by auto
  qed
  from c7 [where token_lines = example_token_file, THEN conjunct1, THEN mp, OF cap]
  obtain tokens where
    r: "read_tokens ascii_int 9223372036854775807 1152921504606846975 (Text example_token_file)
          = Inr tokens"
    and l: "length tokens = table_size ascii_int example_token_file"
    and v: "\<forall>i < length tokens. tokens ! i =
              (if lines_at ascii_int example_token_file i = [] then []
               else line_token (last (lines_at ascii_int example_token_file i)))"
    by blast
  from l have l4: "length tokens = 4" by (simp add: example_table_size)
  have "tokens ! 0 = ascii ''<blk>''" "tokens ! 1 = ascii ''f''" "tokens ! 2 = []"
    "tokens ! 3 = 9601 # ascii ''c''"
    using v l4 by (simp_all add: example_lines_at example_tokens)
  with l4 have "tokens = [ascii ''<blk>'', ascii ''f'', [], 9601 # ascii ''c'']"
    by (auto intro!: nth_equalityI simp: less_Suc_eq numeral_eq_Suc)
  with r have 1: "read_tokens ascii_int 9223372036854775807 1152921504606846975
      (Text example_token_file) = Inr [ascii ''<blk>'', ascii ''f'', [], 9601 # ascii ''c'']"
    by simp
  have nw: "\<not> well_formed ascii_int (ascii ''# b 0'')" by (simp add: tokens_eval)
  from c7 [where skipped = "ascii ''# b 0''" and before = "[ascii ''a 1'']"
      and rest = "[ascii ''c 0'']", THEN conjunct2, THEN conjunct1, THEN mp, OF nw]
  have 2: "read_tokens ascii_int 9223372036854775807 1152921504606846975
        (Text ([ascii ''a 1''] @ ascii ''# b 0'' # [ascii ''c 0'']))
     = read_tokens ascii_int 9223372036854775807 1152921504606846975
        (Text ([ascii ''a 1''] @ [ascii ''c 0'']))" .
  have big: "\<exists>line \<in> set [ascii ''a 1152921504606846975''].
      well_formed ascii_int line \<and> 1152921504606846975 \<le> line_index ascii_int line"
    by (simp add: tokens_eval)
  from c7 [where token_lines = "[ascii ''a 1152921504606846975'']",
      THEN conjunct2, THEN conjunct2, THEN conjunct1, THEN mp, OF big]
  have 3: "read_tokens ascii_int 9223372036854775807 1152921504606846975
         (Text [ascii ''a 1152921504606846975'']) = Inl OverflowError
      \<or> read_tokens ascii_int 9223372036854775807 1152921504606846975
         (Text [ascii ''a 1152921504606846975'']) = Inl MemoryError" .
  from 1 2 3 show ?thesis by blast
qed

text \<open>
  The claim as worded fails on the file of the one line "a 99999999999999999999": the
  line is well-formed, the index is above \<open>sys.maxsize\<close> of a 64-bit interpreter, and
  the loader raises \<open>OverflowError\<close>.
\<close>

theorem C7_counterexample:
  "well_formed ascii_int (ascii ''a 99999999999999999999'')
   \<and> read_tokens ascii_int 9223372036854775807 1152921504606846975
        (Text [ascii ''a 99999999999999999999''])
     = Inl OverflowError"
  by (simp add: read_tokens_def line_entry_def store_token_def strip_def tokens_eval)

section \<open>The greedy transducer decoder\<close>

lemma emit_spec:
  "emit blank hyps idx tops emitted = Inr (hyps', emitted') \<Longrightarrow>
   length hyps' = length hyps \<and>
   (\<forall>b < length hyps. hyps' ! b = hyps ! b @
      (if idx \<le> b \<and> b - idx < length tops \<and> tops ! (b - idx) \<noteq> blank
       then [tops ! (b - idx)] else []))"
proof (induction tops arbitrary: hyps idx emitted)
  case Nil
  then show ?case by simp
next
  case (Cons token_id rest)
  show ?case
  proof (cases "token_id \<noteq> blank")
    case True
    with Cons.prems have inb: "idx < length hyps"
      and rec: "emit blank (hyps[idx := hyps ! idx @ [token_id]]) (idx + 1) rest True
                  = Inr (hyps', emitted')"
      by (auto split: if_splits)
    from Cons.IH [OF rec] have len: "length hyps' = length hyps"
      and v: "\<forall>b < length hyps. hyps' ! b = (hyps[idx := hyps ! idx @ [token_id]]) ! b @
          (if idx + 1 \<le> b \<and> b - (idx + 1) < length rest \<and> rest ! (b - (idx + 1)) \<noteq> blank
           then [rest ! (b - (idx + 1))] else [])"
      by simp_all
    have "hyps' ! b = hyps ! b @
      (if idx \<le> b \<and> b - idx < length (token_id # rest) \<and> (token_id # rest) ! (b - idx) \<noteq> blank
       then [(token_id # rest) ! (b - idx)] else [])" if "b < length hyps" for b
    proof (cases "b = idx")
      case True
      with v that \<open>token_id \<noteq> blank\<close> show ?thesis by simp
    next
      case False
      with v that show ?thesis by (auto simp: nth_Cons')
    qed
    with len show ?thesis by blast
  next
    case False
    with Cons.prems have rec: "emit blank hyps (idx + 1) rest emitted = Inr (hyps', emitted')"
      by simp
    from Cons.IH [OF rec] have len: "length hyps' = length hyps"
      and v: "\<forall>b < length hyps. hyps' ! b = hyps ! b @
          (if idx + 1 \<le> b \<and> b - (idx + 1) < length rest \<and> rest ! (b - (idx + 1)) \<noteq> blank
           then [rest ! (b - (idx + 1))] else [])"
      by simp_all
    have "hyps' ! b = hyps ! b @
      (if idx \<le> b \<and> b - idx < length (token_id # rest) \<and> (token_id # rest) ! (b - idx) \<noteq> blank
       then [(token_id # rest) ! (b - idx)] else [])" if "b < length hyps" for b
    proof (cases "b = idx")
      case True
      with v that False show ?thesis by simp
    next
      case False
      with v that show ?thesis by (auto simp: nth_Cons')
    qed
    with len show ?thesis by blast
  qed
qed

lemma emit_step:
  assumes "emit blank hyps 0 tops False = Inr (hyps', emitted')"
  shows "length hyps' = length hyps"
    and "b < length hyps \<Longrightarrow> hyps' ! b = hyps ! b @
           (if b < length tops \<and> tops ! b \<noteq> blank then [tops ! b] else [])"
  using emit_spec [OF assms] by simp_all

lemma emitted_by_Cons:
  "emitted_by blank b (tops # trace) =
     (if b < length tops \<and> tops ! b \<noteq> blank then [tops ! b] else [])
       @ emitted_by blank b trace"
  by (simp add: emitted_by_def)

lemma tensor_rows_Inr: "tensor_rows rows = Inr rows' \<Longrightarrow> rows' = rows"
  by (auto simp: tensor_rows_def split: if_splits)

lemma greedy_loop_spec:
  "greedy_loop m packed_data offset hyps decoder_out bs = Inr hyps' \<Longrightarrow>
   length hyps' = length hyps \<and>
   (\<forall>b < length hyps. hyps' ! b = hyps ! b @
      emitted_by (blank_id m) b (top_trace m packed_data offset hyps decoder_out bs))"
proof (induction bs arbitrary: offset hyps decoder_out)
  case Nil
  then show ?case by (simp add: emitted_by_def)
next
  case (Cons current_batch rest)
  let ?tops = "top_ids m packed_data offset decoder_out current_batch"
  from Cons.prems obtain hyps1 emitted where
    e: "emit (blank_id m) hyps 0 ?tops False = Inr (hyps1, emitted)"
    by (auto split: sum.splits)
  let ?dout = "if emitted
                 then decoder m (map (last_context (context_size m)) (take current_batch hyps1))
                 else decoder_out"
  have rec: "greedy_loop m packed_data (offset + current_batch) hyps1 ?dout rest = Inr hyps'"
    using Cons.prems e by (auto split: sum.splits if_splits dest: tensor_rows_Inr)
  have tr: "top_trace m packed_data offset hyps decoder_out (current_batch # rest)
      = ?tops # top_trace m packed_data (offset + current_batch) hyps1 ?dout rest"
    using e by (simp add: Let_def)
  from emit_step [OF e] have l1: "length hyps1 = length hyps"
    and v1: "\<And>b. b < length hyps \<Longrightarrow> hyps1 ! b = hyps ! b @
               (if b < length ?tops \<and> ?tops ! b \<noteq> blank_id m then [?tops ! b] else [])"
    by simp_all
  from Cons.IH [OF rec] have l2: "length hyps' = length hyps1"
    and v2: "\<forall>b < length hyps1. hyps' ! b = hyps1 ! b @
      emitted_by (blank_id m) b (top_trace m packed_data (offset + current_batch) hyps1 ?dout rest)"
    by simp_all
  have "hyps' ! b = hyps ! b @
      emitted_by (blank_id m) b (top_trace m packed_data offset hyps decoder_out (current_batch # rest))"
    if "b < length hyps" for b
    using that v1 [of b] v2 l1 unfolding tr emitted_by_Cons by simp
  with l1 l2 show ?case by simp
qed

lemma unsort_spec:
  "unsort sorted_ans unsorted is = Inr results \<Longrightarrow>
   length results = length is \<and>
   (\<forall>k < length is. is ! k < length unsorted \<and> unsorted ! (is ! k) < length sorted_ans
      \<and> results ! k = sorted_ans ! (unsorted ! (is ! k)))"
proof (induction "is" arbitrary: results)
  case Nil
  then show ?case by simp
next
  case (Cons i rest)
  from Cons.prems obtain results' where
    ok: "i < length unsorted" "unsorted ! i < length sorted_ans"
    and rec: "unsort sorted_ans unsorted rest = Inr results'"
    and res: "results = sorted_ans ! (unsorted ! i) # results'"
    by (auto split: if_splits sum.splits)
  from Cons.IH [OF rec] ok res show ?case
    by (auto simp: nth_Cons')
qed

lemma emitted_by_append:
  "emitted_by blank b (xs @ ys) = emitted_by blank b xs @ emitted_by blank b ys"
  by (simp add: emitted_by_def)

lemma emitted_by_silent:
  "\<forall>tops \<in> set trace. \<not> (b < length tops \<and> tops ! b \<noteq> blank) \<Longrightarrow>
   emitted_by blank b trace = []"
  by (induction trace) (auto simp: emitted_by_Cons, simp add: emitted_by_def)

lemma emitted_by_all_blank:
  "\<forall>tops \<in> set trace. \<forall>t \<in> set tops. t = blank \<Longrightarrow> emitted_by blank b trace = []"
  by (rule emitted_by_silent) auto

lemma emitted_by_single:
  assumes k: "k < length trace"
    and e: "b < length (trace ! k)" "trace ! k ! b \<noteq> blank"
    and others: "\<forall>j < length trace. j \<noteq> k \<longrightarrow> \<not> (b < length (trace ! j) \<and> trace ! j ! b \<noteq> blank)"
  shows "emitted_by blank b trace = [trace ! k ! b]"
proof -
  have split: "trace = take k trace @ trace ! k # drop (Suc k) trace"
    using k by (rule id_take_nth_drop)
  have "\<forall>tops \<in> set (take k trace). \<not> (b < length tops \<and> tops ! b \<noteq> blank)"
  proof
    fix tops assume "tops \<in> set (take k trace)"
    then obtain j where "j < length (take k trace)" "take k trace ! j = tops"
      by (auto simp: in_set_conv_nth)
    with k others show "\<not> (b < length tops \<and> tops ! b \<noteq> blank)" by auto
  qed
  then have pre: "emitted_by blank b (take k trace) = []" by (rule emitted_by_silent)
  have "\<forall>tops \<in> set (drop (Suc k) trace). \<not> (b < length tops \<and> tops ! b \<noteq> blank)"
  proof
    fix tops assume "tops \<in> set (drop (Suc k) trace)"
    then obtain j where "j < length (drop (Suc k) trace)" "drop (Suc k) trace ! j = tops"
      by (auto simp: in_set_conv_nth)
    with k others [rule_format, of "Suc k + j"] show "\<not> (b < length tops \<and> tops ! b \<noteq> blank)"
      by auto
  qed
  then have post: "emitted_by blank b (drop (Suc k) trace) = []" by (rule emitted_by_silent)
  have "emitted_by blank b trace
      = emitted_by blank b (take k trace @ trace ! k # drop (Suc k) trace)"
    using split by simp
  also have "\<dots> = [trace ! k ! b]"
    using pre post e by (simp add: emitted_by_append emitted_by_Cons)
  finally show ?thesis .
qed

lemma greedy_search_hyps:
  assumes "greedy_search m encoder_out_dim batch packed = Inr results"
    and ne: "batch_sizes packed \<noteq> []"
  shows "length results = batch"
    and "\<forall>i < batch. results ! i
           = emitted_by (blank_id m) (unsorted_indices packed ! i) (search_trace m batch packed)"
proof -
  let ?hyps = "replicate batch (replicate (context_size m) (blank_id m))"
  from assms obtain hyps' where
    loop: "greedy_loop m (data packed) 0 ?hyps (decoder m ?hyps) (batch_sizes packed) = Inr hyps'"
    and un: "unsort (map (drop (context_size m)) hyps') (unsorted_indices packed) [0..<batch]
               = Inr results"
    by (auto simp: greedy_search_def Let_def split: if_splits sum.splits dest: tensor_rows_Inr)
  from greedy_loop_spec [OF loop] have len: "length hyps' = batch"
    and v: "\<forall>b < batch. hyps' ! b = replicate (context_size m) (blank_id m) @
              emitted_by (blank_id m) b (search_trace m batch packed)"
    by (simp_all add: search_trace_def Let_def)
  from unsort_spec [OF un] have lr: "length results = batch"
    and u: "\<forall>k < batch. unsorted_indices packed ! k < batch
              \<and> results ! k = map (drop (context_size m)) hyps' ! (unsorted_indices packed ! k)"
    using len by simp_all
  show "length results = batch" by (rule lr)
  show "\<forall>i < batch. results ! i
           = emitted_by (blank_id m) (unsorted_indices packed ! i) (search_trace m batch packed)"
  proof (intro allI impI)
    fix i assume i: "i < batch"
    with u have ub: "unsorted_indices packed ! i < batch"
      and r: "results ! i = map (drop (context_size m)) hyps' ! (unsorted_indices packed ! i)"
      by simp_all
    from r ub len have "results ! i = drop (context_size m) (hyps' ! (unsorted_indices packed ! i))"
      by simp
    also from v ub have "\<dots> = emitted_by (blank_id m) (unsorted_indices packed ! i)
                                (search_trace m batch packed)"
      by simp
    finally show "results ! i = emitted_by (blank_id m) (unsorted_indices packed ! i)
                                (search_trace m batch packed)" .
  qed
qed

text \<open>
  Claim C5. Whenever \<open>_greedy_search\<close> returns, an empty list of batch sizes gives
  no hypotheses; otherwise there is one hypothesis per batch element, and the hypothesis
  returned at position \<open>i\<close> is exactly the non-blank arg-max ids of the steps, in
  step order, of the batch element that the permutation assigns to \<open>i\<close>, with the
  seed of \<open>context_size\<close> blanks removed. In particular, when every arg-max is
  blank every hypothesis is empty, and a batch element with a non-blank arg-max at
  exactly one step has the one-token hypothesis of that id.
\<close>

theorem C5_greedy_search:
  assumes "greedy_search m encoder_out_dim batch packed = Inr results"
  shows "(batch_sizes packed = [] \<longrightarrow> results = [])
     \<and> (batch_sizes packed \<noteq> [] \<longrightarrow>
          length results = batch
        \<and> (\<forall>i < batch. results ! i
              = emitted_by (blank_id m) (unsorted_indices packed ! i)
                  (search_trace m batch packed))
        \<and> ((\<forall>tops \<in> set (search_trace m batch packed). \<forall>t \<in> set tops. t = blank_id m)
             \<longrightarrow> (\<forall>i < batch. results ! i = []))
        \<and> (\<forall>i < batch. \<forall>k.
              single_emission (blank_id m) (unsorted_indices packed ! i)
                (search_trace m batch packed) k
              \<longrightarrow> results ! i
                    = [search_trace m batch packed ! k ! (unsorted_indices packed ! i)]))"
proof (intro conjI impI)
  assume "batch_sizes packed = []"
  with assms show "results = []"
    by (auto simp: greedy_search_def Let_def split: if_splits)
next
  assume ne: "batch_sizes packed \<noteq> []"
  from greedy_search_hyps [OF assms ne]
  show "length results = batch"
    and h: "\<forall>i < batch. results ! i
              = emitted_by (blank_id m) (unsorted_indices packed ! i)
                  (search_trace m batch packed)"
    by simp_all
  {
    assume "\<forall>tops \<in> set (search_trace m batch packed). \<forall>t \<in> set tops. t = blank_id m"
    then have "emitted_by (blank_id m) b (search_trace m batch packed) = []" for b
      by (rule emitted_by_all_blank)
    with h show "\<forall>i < batch. results ! i = []" by simp
  }
  show "\<forall>i < batch. \<forall>k.
              single_emission (blank_id m) (unsorted_indices packed ! i)
                (search_trace m batch packed) k
              \<longrightarrow> results ! i
                    = [search_trace m batch packed ! k ! (unsorted_indices packed ! i)]"
  proof (intro allI impI)
    fix i k
    assume i: "i < batch"
      and s: "single_emission (blank_id m) (unsorted_indices packed ! i)
                (search_trace m batch packed) k"
    from s have "emitted_by (blank_id m) (unsorted_indices packed ! i)
                   (search_trace m batch packed)
                 = [search_trace m batch packed ! k ! (unsorted_indices packed ! i)]"
      unfolding single_emission_def by (intro emitted_by_single) simp_all
    with h i show "results ! i
                    = [search_trace m batch packed ! k ! (unsorted_indices packed ! i)]"
      by simp
  qed
qed

lemma replicate_two: "replicate 2 x = [x, x]"
  by (simp add: numeral_2_eq_2)

lemmas greedy_eval = replicate_two
  greedy_search_def search_trace_def top_ids_def tensor_rows_def last_context_def
  emitted_by_def silent_transducer_def once_transducer_def one_utterance_def Let_def

lemma silent_run: "greedy_search silent_transducer 3 1 one_utterance = Inr [[]]"
  by (simp add: greedy_eval)

lemma once_run: "greedy_search once_transducer 3 1 one_utterance = Inr [[7]]"
  by (simp add: greedy_eval)

lemma once_trace: "search_trace once_transducer 1 one_utterance = [[7], [0], [0]]"
  by (simp add: greedy_eval)

theorem C5_greedy_search_witness:
  "greedy_search once_transducer 3 1 one_utterance = Inr [[7]]
   \<and> emitted_by 0 0 (search_trace once_transducer 1 one_utterance) = [7]
   \<and> greedy_search silent_transducer 3 1 one_utterance = Inr [[]]
   \<and> emitted_by 0 0 (search_trace silent_transducer 1 one_utterance) = []"
proof -
  have ne: "batch_sizes one_utterance \<noteq> []" by (simp add: one_utterance_def)
  from C5_greedy_search [OF once_run] ne
  have "[[7]] ! 0 = emitted_by (blank_id once_transducer) (unsorted_indices one_utterance ! 0)
                      (search_trace once_transducer 1 one_utterance)"
    by blast
  then have 1: "emitted_by 0 0 (search_trace once_transducer 1 one_utterance) = [7]"
    by (simp add: once_transducer_def one_utterance_def)
  from C5_greedy_search [OF silent_run] ne
  have "[[]] ! 0 = emitted_by (blank_id silent_transducer) (unsorted_indices one_utterance ! 0)
                      (search_trace silent_transducer 1 one_utterance)"
    by blast
  then have 2: "emitted_by 0 0 (search_trace silent_transducer 1 one_utterance) = []"
    by (simp add: silent_transducer_def one_utterance_def)
  from once_run 1 silent_run 2 show ?thesis by simp
qed

section \<open>The backends\<close>

subsection \<open>The order of finalization\<close>

lemma dropWhile_fixed_prefix:
  assumes "dropWhile P t = t"
  shows "dropWhile P (rev (dropWhile P (rev t))) = rev (dropWhile P (rev t))"
proof (cases "rev (dropWhile P (rev t))")
  case Nil
  show ?thesis unfolding Nil by simp
next
  case (Cons c cs)
  have "rev t = takeWhile P (rev t) @ dropWhile P (rev t)" by simp
  then have "t = rev (dropWhile P (rev t)) @ rev (takeWhile P (rev t))"
    by (metis rev_append rev_rev_ident)
  with Cons have t: "t = c # cs @ rev (takeWhile P (rev t))" by simp
  then have ne: "t \<noteq> []" and hd: "hd t = c" by (metis list.distinct(1), metis list.sel(1))
  from ne assms have "dropWhile P t \<noteq> []" by simp
  then have "\<not> P (hd (dropWhile P t))" by (rule hd_dropWhile)
  with assms hd have "\<not> P c" by simp
  with Cons show ?thesis by simp
qed

lemma strip_idem: "strip (strip s) = strip s"
proof -
  have "dropWhile is_space (dropWhile is_space s) = dropWhile is_space s" by simp
  then have "dropWhile is_space (strip s) = strip s"
    unfolding strip_def by (rule dropWhile_fixed_prefix)
  then show ?thesis by (simp add: strip_def)
qed

lemma finalize_transcript_stripped:
  "finalize_transcript decode_meta model (strip c) =
     (if strip c = [] then []
      else decode_meta
        (if language_family model = ascii ''vi''
         then normalize_vietnamese_transcript (strip c) else strip c))"
  by (simp add: finalize_transcript_def strip_idem Let_def)

lemma finalize_transcript_unstripped:
  "finalize_transcript decode_meta model c = finalize_transcript decode_meta model (strip c)"
  by (simp add: finalize_transcript_def strip_idem Let_def)

lemma transcribe_whisper_text:
  assumes "transformers_importable lib"
    and "whisper_load_model lib model cache w = (Inr transcriber, cache', w')"
    and "whisper_recognize lib transcriber audio_stream w' = (Inr (Some text), w'')"
  shows "transcribe_whisper lib get_function decode_meta model settings audio_stream cache w
     = (Inr (whisper_phrase (get_function (casing model)) decode_meta model text), cache', w'')"
  using assms by (simp add: transcribe_whisper_def)

lemma transcribe_vietasr_text:
  assumes "vietasr_require_dependencies lib = Inr ()"
    and "vietasr_load_resources lib model settings cache w = (Inr resources, cache', w')"
    and "vietasr_recognize lib resources audio_stream w' = (Inr (Some text), w'')"
  shows "transcribe_vietasr lib get_function decode_meta model settings audio_stream cache w
     = (Inr (vietasr_phrase (get_function (casing model)) decode_meta model text), cache', w'')"
  using assms by (simp add: transcribe_vietasr_def)

lemma transcribe_chunkformer_text:
  assumes "chunkformer_require_dependencies lib = Inr ()"
    and "chunkformer_load_resources lib model settings cache w = (Inr resources, cache', w')"
    and "chunkformer_recognize lib resources audio_stream w' = (Inr (Some text), w'')"
  shows "transcribe_chunkformer lib get_function decode_meta model settings audio_stream cache w
     = (Inr (chunkformer_phrase (get_function (casing model)) decode_meta model text), cache', w'')"
  using assms by (simp add: transcribe_chunkformer_def)

lemma transcribe_vosk_fragments:
  assumes "vosk_importable lib"
    and "vosk_load_model lib model settings cache w = (Inr m, cache', w')"
    and "vosk_recognize lib m audio_stream w' = (recognized_fragments, w'')"
  shows "transcribe_vosk lib get_function decode_meta model settings audio_stream cache w
     = (Inr (vosk_phrase (get_function (casing model)) decode_meta recognized_fragments),
        cache', w'')"
  using assms by (simp add: transcribe_vosk_def)

lemma vietasr_phrase_order:
  "text \<noteq> [] \<Longrightarrow>
   vietasr_phrase casing_func decode_meta model text =
     (let cased = strip (casing_func text)
      in if cased = [] then []
         else decode_meta
           (if language_family model = ascii ''vi''
            then normalize_vietnamese_transcript cased else cased))"
  by (simp add: vietasr_phrase_def finalize_transcript_stripped Let_def)

lemma chunkformer_phrase_order:
  "text \<noteq> [] \<Longrightarrow>
   chunkformer_phrase casing_func decode_meta model text =
     (let cased = strip (casing_func text)
      in if cased = [] then []
         else decode_meta
           (if language_family model = ascii ''vi''
            then normalize_vietnamese_transcript cased else cased))"
  by (simp add: chunkformer_phrase_def finalize_transcript_stripped Let_def)

lemma whisper_phrase_order:
  "text \<noteq> [] \<Longrightarrow>
   whisper_phrase casing_func decode_meta model text =
     (let cased = strip (rstrip_char 46 (casing_func text))
      in if cased = [] then []
         else decode_meta
           (if language_family model = ascii ''vi''
            then normalize_vietnamese_transcript cased else cased))"
  using finalize_transcript_unstripped [of decode_meta model "rstrip_char 46 (casing_func text)"]
  by (simp add: whisper_phrase_def whisper_finalize_input_def finalize_transcript_stripped Let_def)

text \<open>
  Claim C1, as amended. For the VietASR, ChunkFormer and Whisper backends and every
  non-empty recognized text, the phrase returned is made in this order: the casing
  function (then, in Whisper only, the removal of trailing periods), then removal of
  surrounding whitespace; if nothing is left the phrase is empty and \<open>decode_meta\<close>
  is not applied; otherwise the Vietnamese normalizer if and only if the language
  family is "vi", then \<open>decode_meta\<close>. For the Vosk backend and a language family
  other than "vi", the phrase is the one the claim describes, which is \<open>decode_meta\<close>
  of the cased text. Of the Vosk backend with the language family "vi" nothing is
  stated.
\<close>

theorem C1_finalization_order:
  assumes "text \<noteq> []"
  shows "(vietasr_require_dependencies vietasr_lib = Inr ()
          \<and> vietasr_load_resources vietasr_lib model settings vietasr_cache w
              = (Inr vietasr_res, vietasr_cache', w1)
          \<and> vietasr_recognize vietasr_lib vietasr_res audio_stream w1 = (Inr (Some text), w2)
          \<longrightarrow> fst (transcribe_vietasr vietasr_lib get_function decode_meta model settings
                     audio_stream vietasr_cache w)
               = Inr (let cased = strip (get_function (casing model) text)
                      in if cased = [] then []
                         else decode_meta
                           (if language_family model = ascii ''vi''
                            then normalize_vietnamese_transcript cased else cased)))
     \<and> (chunkformer_require_dependencies chunkformer_lib = Inr ()
          \<and> chunkformer_load_resources chunkformer_lib model settings chunkformer_cache w
              = (Inr chunkformer_res, chunkformer_cache', w1)
          \<and> chunkformer_recognize chunkformer_lib chunkformer_res audio_stream w1
              = (Inr (Some text), w2)
          \<longrightarrow> fst (transcribe_chunkformer chunkformer_lib get_function decode_meta model settings
                     audio_stream chunkformer_cache w)
               = Inr (let cased = strip (get_function (casing model) text)
                      in if cased = [] then []
                         else decode_meta
                           (if language_family model = ascii ''vi''
                            then normalize_vietnamese_transcript cased else cased)))
     \<and> (transformers_importable whisper_lib
          \<and> whisper_load_model whisper_lib model whisper_cache w
              = (Inr transcriber, whisper_cache', w1)
          \<and> whisper_recognize whisper_lib transcriber audio_stream w1 = (Inr (Some text), w2)
          \<longrightarrow> fst (transcribe_whisper whisper_lib get_function decode_meta model settings
                     audio_stream whisper_cache w)
               = Inr (let cased = strip (rstrip_char 46 (get_function (casing model) text))
                      in if cased = [] then []
                         else decode_meta
                           (if language_family model = ascii ''vi''
                            then normalize_vietnamese_transcript cased else cased)))
     \<and> (vosk_importable vosk_lib
          \<and> vosk_load_model vosk_lib model settings vosk_cache w = (Inr vosk_m, vosk_cache', w1)
          \<and> vosk_recognize vosk_lib vosk_m audio_stream w1 = (recognized_fragments, w2)
          \<and> text = join [32] recognized_fragments
          \<and> language_family model \<noteq> ascii ''vi''
          \<longrightarrow> fst (transcribe_vosk vosk_lib get_function decode_meta model settings
                     audio_stream vosk_cache w)
               = Inr (claimed_phrase (get_function (casing model)) decode_meta model text))"
proof (intro conjI impI)
  assume "vietasr_require_dependencies vietasr_lib = Inr ()
          \<and> vietasr_load_resources vietasr_lib model settings vietasr_cache w
              = (Inr vietasr_res, vietasr_cache', w1)
          \<and> vietasr_recognize vietasr_lib vietasr_res audio_stream w1 = (Inr (Some text), w2)"
  then have "transcribe_vietasr vietasr_lib get_function decode_meta model settings
                     audio_stream vietasr_cache w
     = (Inr (vietasr_phrase (get_function (casing model)) decode_meta model text),
        vietasr_cache', w2)"
    by (intro transcribe_vietasr_text) blast+
  then show "fst (transcribe_vietasr vietasr_lib get_function decode_meta model settings
                     audio_stream vietasr_cache w)
               = Inr (let cased = strip (get_function (casing model) text)
                      in if cased = [] then []
                         else decode_meta
                           (if language_family model = ascii ''vi''
                            then normalize_vietnamese_transcript cased else cased))"
    using vietasr_phrase_order [OF assms] by simp
next
  assume "chunkformer_require_dependencies chunkformer_lib = Inr ()
          \<and> chunkformer_load_resources chunkformer_lib model settings chunkformer_cache w
              = (Inr chunkformer_res, chunkformer_cache', w1)
          \<and> chunkformer_recognize chunkformer_lib chunkformer_res audio_stream w1
              = (Inr (Some text), w2)"
  then have "transcribe_chunkformer chunkformer_lib get_function decode_meta model settings
                     audio_stream chunkformer_cache w
     = (Inr (chunkformer_phrase (get_function (casing model)) decode_meta model text),
        chunkformer_cache', w2)"
    by (intro transcribe_chunkformer_text) blast+
  then show "fst (transcribe_chunkformer chunkformer_lib get_function decode_meta model settings
                     audio_stream chunkformer_cache w)
               = Inr (let cased = strip (get_function (casing model) text)
                      in if cased = [] then []
                         else decode_meta
                           (if language_family model = ascii ''vi''
                            then normalize_vietnamese_transcript cased else cased))"
    using chunkformer_phrase_order [OF assms] by simp
next
  assume "transformers_importable whisper_lib
          \<and> whisper_load_model whisper_lib model whisper_cache w
              = (Inr transcriber, whisper_cache', w1)
          \<and> whisper_recognize whisper_lib transcriber audio_stream w1 = (Inr (Some text), w2)"
  then have "transcribe_whisper whisper_lib get_function decode_meta model settings
                     audio_stream whisper_cache w
     = (Inr (whisper_phrase (get_function (casing model)) decode_meta model text),
        whisper_cache', w2)"
    by (intro transcribe_whisper_text) blast+
  then show "fst (transcribe_whisper whisper_lib get_function decode_meta model settings
                     audio_stream whisper_cache w)
               = Inr (let cased = strip (rstrip_char 46 (get_function (casing model) text))
                      in if cased = [] then []
                         else decode_meta
                           (if language_family model = ascii ''vi''
                            then normalize_vietnamese_transcript cased else cased))"
    using whisper_phrase_order [OF assms] by simp
next
  assume a: "vosk_importable vosk_lib
          \<and> vosk_load_model vosk_lib model settings vosk_cache w = (Inr vosk_m, vosk_cache', w1)
          \<and> vosk_recognize vosk_lib vosk_m audio_stream w1 = (recognized_fragments, w2)
          \<and> text = join [32] recognized_fragments
          \<and> language_family model \<noteq> ascii ''vi''"
  then have "transcribe_vosk vosk_lib get_function decode_meta model settings
                     audio_stream vosk_cache w
     = (Inr (vosk_phrase (get_function (casing model)) decode_meta recognized_fragments),
        vosk_cache', w2)"
    by (intro transcribe_vosk_fragments) blast+
  moreover from a assms have "recognized_fragments \<noteq> []" by auto
  ultimately show "fst (transcribe_vosk vosk_lib get_function decode_meta model settings
                     audio_stream vosk_cache w)
               = Inr (claimed_phrase (get_function (casing model)) decode_meta model text)"
    using a by (simp add: vosk_phrase_def claimed_phrase_def)
qed

subsection \<open>Runs of the concrete collaborators\<close>

lemmas backend_eval2 =
  keep_case_def keep_meta_def vi_model_def en_model_def ex_settings_def ex_world_def
  cf_world_def log_event_def collect_audio_def path_join_def path_exists_def mkdir_def
  ascii_def Let_def

lemma ex_vosk_load:
  "vosk_load_model ex_vosk vi_model ex_settings Map.empty ex_world
     = (Inr (), [ascii ''/models/m'' \<mapsto> ()],
        log_event (LoadModel (ascii ''/models/m'')) (log_event (IsDir (ascii ''/models/m'')) ex_world))"
  by (simp add: vosk_load_model_def ex_vosk_def backend_eval2)

lemma ex_vosk_recognize:
  "vosk_recognize ex_vosk () [[1, 0]] w
     = ([join [32] [w_mot, w_gio]], log_event FinalResult (log_event (AcceptWaveform [1, 0]) w))"
  by (simp add: vosk_recognize_def ex_vosk_def strip_def is_space_def word_defs log_event_def)

lemma ex_vietasr_load:
  "\<exists>cache' w'. vietasr_load_resources ex_vietasr vi_model ex_settings Map.empty ex_world
     = (Inr \<lparr>res_model = (), res_fbank = (), res_device = Cpu,
              res_tokens = [ascii ''<blk>'', 9601 # ascii ''ba'', 9601 # ascii ''x'']\<rparr>, cache', w')"
  by (simp add: vietasr_load_resources_def ex_vietasr_def backend_eval2 read_tokens_file_def
      read_tokens_def line_entry_def store_token_def list_assign_def strip_def is_space_def
      split_ws.simps ascii_int_def)

lemma ex_vietasr_recognize:
  "vietasr_recognize ex_vietasr
     \<lparr>res_model = (), res_fbank = (), res_device = Cpu,
      res_tokens = [ascii ''<blk>'', 9601 # ascii ''ba'', 9601 # ascii ''x'']\<rparr> [[1, 0]] w
     = (Inr (Some (ascii ''ba'')), log_event RunGreedySearch (log_event RunEncoder w))"
  by (simp add: vietasr_recognize_def ex_vietasr_def one_transducer_def one_utterance_def
      greedy_search_def tensor_rows_def top_ids_def last_context_def replicate_two
      tokens_to_text_def replace_def replace_from.simps strip_def is_space_def
      collect_audio_def log_event_def ascii_def Let_def)

lemma ex_chunkformer_load:
  "\<exists>cache' w'. chunkformer_load_resources (ex_chunkformer outcome) vi_model ex_settings Map.empty cf_world
     = (Inr \<lparr>cf_model = (), cf_device = Cpu\<rparr>, cache', w')"
  by (simp add: chunkformer_load_resources_def ensure_model_files_def ex_chunkformer_def
      backend_eval2)

lemma ex_chunkformer_recognize:
  "\<exists>w'. chunkformer_recognize (ex_chunkformer (Inr (DecodedStr ([32] @ join [32] [w_ba, w_gio] @ [32]))))
     \<lparr>cf_model = (), cf_device = Cpu\<rparr> [[1, 0]] w
     = (Inr (Some (join [32] [w_ba, w_gio])), w')"
  by (simp add: word_defs chunkformer_recognize_def ex_chunkformer_def write_temp_wav_def
      decode_temp_file_def decode_to_text_def unlink_def strip_def is_space_def
      collect_audio_def log_event_def ascii_def Let_def)

lemma ex_whisper_load_en:
  "whisper_load_model ex_whisper en_model Map.empty ex_world
     = (Inr (), [ascii ''m'' \<mapsto> ()], log_event (LoadPipeline (ascii ''m'')) ex_world)"
  by (simp add: whisper_load_model_def whisper_model_id_def ex_whisper_def backend_eval2)

lemma ex_whisper_recognize2:
  "whisper_recognize ex_whisper () [[1, 0], [], [2, 0]] w
     = (Inr (Some (ascii ''ok..'')), log_event RunPipeline w)"
  by (simp add: whisper_recognize_def ex_whisper_def strip_def is_space_def ascii_def
      collect_audio_def Let_def)

lemma ex_vosk_load_en:
  "vosk_load_model ex_vosk en_model ex_settings Map.empty ex_world
     = (Inr (), [ascii ''/models/m'' \<mapsto> ()],
        log_event (LoadModel (ascii ''/models/m'')) (log_event (IsDir (ascii ''/models/m'')) ex_world))"
  by (simp add: vosk_load_model_def ex_vosk_def backend_eval2)

lemmas transcript_eval =
  normalize_vietnamese_transcript_def normalize_cancellation_terms_def replace_def
  replace_from.simps vi_eval

lemma transcript_ba_gio:
  "normalize_vietnamese_transcript (join [32] [w_ba, w_gio]) = join [32] [[51], w_gio]"
  by (simp add: transcript_eval)

lemma transcript_ba: "normalize_vietnamese_transcript (ascii ''ba'') = ascii ''ba''"
  by (simp add: transcript_eval ascii_def)

theorem C1_finalization_order_witness:
  "fst (transcribe_vietasr ex_vietasr keep_case keep_meta vi_model ex_settings [[1, 0]]
          Map.empty ex_world) = Inr (ascii ''ba'')
   \<and> fst (transcribe_chunkformer
            (ex_chunkformer (Inr (DecodedStr ([32] @ join [32] [w_ba, w_gio] @ [32]))))
            keep_case keep_meta vi_model ex_settings [[1, 0]] Map.empty cf_world)
       = Inr (join [32] [[51], w_gio])
   \<and> fst (transcribe_whisper ex_whisper keep_case keep_meta en_model ex_settings
            [[1, 0], [], [2, 0]] Map.empty ex_world) = Inr (ascii ''ok'')
   \<and> fst (transcribe_vosk ex_vosk keep_case keep_meta en_model ex_settings [[1, 0]]
            Map.empty ex_world) = Inr (join [32] [w_mot, w_gio])"
proof -
  have vi: "language_family vi_model = ascii ''vi''" by (simp add: vi_model_def)
  have en: "language_family en_model \<noteq> ascii ''vi''" by (simp add: en_model_def ascii_def)
  have vd: "vietasr_require_dependencies ex_vietasr = Inr ()"
    by (simp add: vietasr_require_dependencies_def ex_vietasr_def)
  obtain vc vw where vl:
    "vietasr_load_resources ex_vietasr vi_model ex_settings Map.empty ex_world
       = (Inr \<lparr>res_model = (), res_fbank = (), res_device = Cpu,
                res_tokens = [ascii ''<blk>'', 9601 # ascii ''ba'', 9601 # ascii ''x'']\<rparr>, vc, vw)"
    using ex_vietasr_load by blast
  have n1: "ascii ''ba'' \<noteq> []" by (simp add: ascii_def)
  have "fst (transcribe_vietasr ex_vietasr keep_case keep_meta vi_model ex_settings [[1, 0]]
          Map.empty ex_world)
        = Inr (let cased = strip (keep_case (casing vi_model) (ascii ''ba''))
               in if cased = [] then []
                  else keep_meta
                    (if language_family vi_model = ascii ''vi''
                     then normalize_vietnamese_transcript cased else cased))"
    by (rule C1_finalization_order [OF n1, THEN conjunct1, THEN mp,
          OF conjI [OF vd conjI [OF vl ex_vietasr_recognize]]])
  then have 1: "fst (transcribe_vietasr ex_vietasr keep_case keep_meta vi_model ex_settings
          [[1, 0]] Map.empty ex_world) = Inr (ascii ''ba'')"
    using vi transcript_ba
    by (simp add: keep_case_def keep_meta_def strip_def is_space_def ascii_def)
  have cd: "chunkformer_require_dependencies
              (ex_chunkformer (Inr (DecodedStr ([32] @ join [32] [w_ba, w_gio] @ [32])))) = Inr ()"
    by (simp add: chunkformer_require_dependencies_def ex_chunkformer_def)
  obtain cc cw where cl:
    "chunkformer_load_resources
       (ex_chunkformer (Inr (DecodedStr ([32] @ join [32] [w_ba, w_gio] @ [32]))))
       vi_model ex_settings Map.empty cf_world
       = (Inr \<lparr>cf_model = (), cf_device = Cpu\<rparr>, cc, cw)"
    using ex_chunkformer_load by blast
  obtain cw' where cr:
    "chunkformer_recognize
       (ex_chunkformer (Inr (DecodedStr ([32] @ join [32] [w_ba, w_gio] @ [32]))))
       \<lparr>cf_model = (), cf_device = Cpu\<rparr> [[1, 0]] cw
       = (Inr (Some (join [32] [w_ba, w_gio])), cw')"
    using ex_chunkformer_recognize by blast
  have n2: "join [32] [w_ba, w_gio] \<noteq> []" by (simp add: word_defs)
  have "fst (transcribe_chunkformer
            (ex_chunkformer (Inr (DecodedStr ([32] @ join [32] [w_ba, w_gio] @ [32]))))
            keep_case keep_meta vi_model ex_settings [[1, 0]] Map.empty cf_world)
        = Inr (let cased = strip (keep_case (casing vi_model) (join [32] [w_ba, w_gio]))
               in if cased = [] then []
                  else keep_meta
                    (if language_family vi_model = ascii ''vi''
                     then normalize_vietnamese_transcript cased else cased))"
    by (rule C1_finalization_order [OF n2, THEN conjunct2, THEN conjunct1, THEN mp,
          OF conjI [OF cd conjI [OF cl cr]]])
  moreover have "strip (join [32] [w_ba, w_gio]) = join [32] [w_ba, w_gio]"
    by (simp add: strip_def is_space_def word_defs)
  ultimately have 2: "fst (transcribe_chunkformer
            (ex_chunkformer (Inr (DecodedStr ([32] @ join [32] [w_ba, w_gio] @ [32]))))
            keep_case keep_meta vi_model ex_settings [[1, 0]] Map.empty cf_world)
       = Inr (join [32] [[51], w_gio])"
    using vi transcript_ba_gio
    by (simp add: keep_case_def keep_meta_def Let_def word_defs)
  have wi: "transformers_importable ex_whisper" by (simp add: ex_whisper_def)
  have n3: "ascii ''ok..'' \<noteq> []" by (simp add: ascii_def)
  have "fst (transcribe_whisper ex_whisper keep_case keep_meta en_model ex_settings
            [[1, 0], [], [2, 0]] Map.empty ex_world)
        = Inr (let cased = strip (rstrip_char 46 (keep_case (casing en_model) (ascii ''ok..'')))
               in if cased = [] then []
                  else keep_meta
                    (if language_family en_model = ascii ''vi''
                     then normalize_vietnamese_transcript cased else cased))"
    by (rule C1_finalization_order [OF n3, THEN conjunct2, THEN conjunct2, THEN conjunct1,
          THEN mp, OF conjI [OF wi conjI [OF ex_whisper_load_en ex_whisper_recognize2]]])
  then have 3: "fst (transcribe_whisper ex_whisper keep_case keep_meta en_model ex_settings
            [[1, 0], [], [2, 0]] Map.empty ex_world) = Inr (ascii ''ok'')"
    by (simp add: keep_case_def keep_meta_def rstrip_char_def strip_def is_space_def
        en_model_def ascii_def)
  have vo: "vosk_importable ex_vosk" by (simp add: ex_vosk_def)
  have n4: "join [32] [w_mot, w_gio] \<noteq> []" by (simp add: word_defs)
  have j: "join [32] [w_mot, w_gio] = join [32] [join [32] [w_mot, w_gio]]" by simp
  have "fst (transcribe_vosk ex_vosk keep_case keep_meta en_model ex_settings [[1, 0]]
            Map.empty ex_world)
        = Inr (claimed_phrase (keep_case (casing en_model)) keep_meta en_model
                 (join [32] [w_mot, w_gio]))"
    by (rule C1_finalization_order [OF n4, THEN conjunct2, THEN conjunct2, THEN conjunct2,
          THEN mp, OF conjI [OF vo conjI [OF ex_vosk_load_en conjI [OF ex_vosk_recognize
            conjI [OF j en]]]]])
  then have 4: "fst (transcribe_vosk ex_vosk keep_case keep_meta en_model ex_settings [[1, 0]]
            Map.empty ex_world) = Inr (join [32] [w_mot, w_gio])"
    using en by (simp add: claimed_phrase_def keep_case_def keep_meta_def)
  from 1 2 3 4 show ?thesis by blast
qed

text \<open>
  The claim as worded fails for the Whisper backend: with the recognized text "ok.."
  the phrase is "ok", because the trailing periods are removed between the casing and
  \<open>decode_meta\<close>, where the claim has "ok..".
\<close>

theorem C1_counterexample:
  "whisper_recognize ex_whisper () [[1, 0], [], [2, 0]]
       (log_event (LoadPipeline (ascii ''m'')) ex_world)
     = (Inr (Some (ascii ''ok..'')),
        log_event RunPipeline (log_event (LoadPipeline (ascii ''m'')) ex_world))
   \<and> fst (transcribe_whisper ex_whisper keep_case keep_meta en_model ex_settings
            [[1, 0], [], [2, 0]] Map.empty ex_world)
       \<noteq> Inr (claimed_phrase (keep_case (casing en_model)) keep_meta en_model (ascii ''ok..''))"
proof -
  have wi: "transformers_importable ex_whisper" by (simp add: ex_whisper_def)
  have "fst (transcribe_whisper ex_whisper keep_case keep_meta en_model ex_settings
            [[1, 0], [], [2, 0]] Map.empty ex_world) = Inr (ascii ''ok'')"
    using transcribe_whisper_text [OF wi ex_whisper_load_en ex_whisper_recognize2,
        of keep_case keep_meta ex_settings]
    by (simp add: whisper_phrase_def whisper_finalize_input_def finalize_transcript_def
        rstrip_char_def strip_def is_space_def keep_case_def keep_meta_def en_model_def
        ascii_def)
  moreover have "claimed_phrase (keep_case (casing en_model)) keep_meta en_model (ascii ''ok..'')
      = ascii ''ok..''"
    by (simp add: claimed_phrase_def keep_case_def keep_meta_def en_model_def ascii_def)
  moreover have "ascii ''ok'' \<noteq> ascii ''ok..''" by (simp add: ascii_def)
  ultimately show ?thesis using ex_whisper_recognize2 by simp
qed

text \<open>
  The Vosk backend with a model of language family "vi", which the statement above
  leaves out: with the recognized text "mot gio" it returns the text as it is, while
  the three other backends, which go through \<open>finalize_transcript\<close>, and the claim
  have the normalizer turn it into "1 gio".
\<close>

lemma vosk_vi_not_normalized:
  "fst (transcribe_vosk ex_vosk keep_case keep_meta vi_model ex_settings [[1, 0]]
          Map.empty ex_world) = Inr (join [32] [w_mot, w_gio])
   \<and> claimed_phrase (keep_case ()) keep_meta vi_model (join [32] [w_mot, w_gio])
       = join [32] [[49], w_gio]
   \<and> finalize_transcript keep_meta vi_model (join [32] [w_mot, w_gio])
       = join [32] [[49], w_gio]"
proof -
  have vo: "vosk_importable ex_vosk" by (simp add: ex_vosk_def)
  from transcribe_vosk_fragments [OF vo ex_vosk_load ex_vosk_recognize]
  have 1: "fst (transcribe_vosk ex_vosk keep_case keep_meta vi_model ex_settings [[1, 0]]
          Map.empty ex_world) = Inr (join [32] [w_mot, w_gio])"
    by (simp add: vosk_phrase_def keep_case_def keep_meta_def)
  have n: "normalize_vietnamese_transcript (join [32] [w_mot, w_gio]) = join [32] [[49], w_gio]"
    by (simp add: transcript_eval)
  have 2: "claimed_phrase (keep_case ()) keep_meta vi_model (join [32] [w_mot, w_gio])
       = join [32] [[49], w_gio]"
    using n by (simp add: claimed_phrase_def keep_case_def keep_meta_def vi_model_def)
  have "strip (join [32] [w_mot, w_gio]) = join [32] [w_mot, w_gio]"
    by (simp add: strip_def is_space_def word_defs)
  then have 3: "finalize_transcript keep_meta vi_model (join [32] [w_mot, w_gio])
       = join [32] [[49], w_gio]"
    using n by (simp add: finalize_transcript_def keep_meta_def vi_model_def word_defs)
  from 1 2 3 show ?thesis by blast
qed

lemma takeWhile_eq_replicate: "takeWhile (\<lambda>x. x = ch) xs = replicate (length (takeWhile (\<lambda>x. x = ch) xs)) ch"
  by (induction xs) auto

lemma rstrip_char_spec:
  "\<exists>n. s = rstrip_char ch s @ replicate n ch"
  "\<not> (rstrip_char ch s \<noteq> [] \<and> last (rstrip_char ch s) = ch)"
proof -
  let ?P = "\<lambda>x. x = ch"
  have "rev s = takeWhile ?P (rev s) @ dropWhile ?P (rev s)" by simp
  then have "s = rev (dropWhile ?P (rev s)) @ rev (takeWhile ?P (rev s))"
    by (metis rev_append rev_rev_ident)
  moreover have "rev (takeWhile ?P (rev s)) = replicate (length (takeWhile ?P (rev s))) ch"
    using takeWhile_eq_replicate [of ch "rev s"] by (metis rev_replicate)
  ultimately have "s = rstrip_char ch s @ replicate (length (takeWhile ?P (rev s))) ch"
    by (simp add: rstrip_char_def)
  then show "\<exists>n. s = rstrip_char ch s @ replicate n ch" ..
  show "\<not> (rstrip_char ch s \<noteq> [] \<and> last (rstrip_char ch s) = ch)"
  proof
    assume a: "rstrip_char ch s \<noteq> [] \<and> last (rstrip_char ch s) = ch"
    then have ne: "dropWhile ?P (rev s) \<noteq> []" by (simp add: rstrip_char_def)
    then have "\<not> ?P (hd (dropWhile ?P (rev s)))" by (rule hd_dropWhile)
    moreover have "last (rstrip_char ch s) = hd (dropWhile ?P (rev s))"
      using ne by (simp add: rstrip_char_def last_rev)
    ultimately show False using a by simp
  qed
qed

subsection \<open>Whisper: trailing periods\<close>

text \<open>
  Claim C10. When \<open>transcribe_whisper\<close> has a non-empty recognized text, the text it
  passes to \<open>finalize_transcript\<close> is the cased text with all trailing periods (code
  point 46) removed: the cased text is that text followed by periods only, and that
  text does not end with a period.
\<close>

theorem C10_whisper_trailing_periods:
  assumes "transformers_importable lib"
    and "whisper_load_model lib model cache w = (Inr transcriber, cache', w')"
    and "whisper_recognize lib transcriber audio_stream w' = (Inr (Some text), w'')"
    and "text \<noteq> []"
  shows "\<exists>normalized n.
           normalized = whisper_finalize_input (get_function (casing model)) text
         \<and> fst (transcribe_whisper lib get_function decode_meta model settings audio_stream cache w)
             = Inr (finalize_transcript decode_meta model normalized)
         \<and> get_function (casing model) text = normalized @ replicate n 46
         \<and> \<not> (normalized \<noteq> [] \<and> last normalized = 46)"
proof -
  let ?cased = "get_function (casing model) text"
  have n: "whisper_finalize_input (get_function (casing model)) text = rstrip_char 46 ?cased"
    by (simp add: whisper_finalize_input_def)
  from rstrip_char_spec(1) [of ?cased 46] obtain k where
    k: "?cased = rstrip_char 46 ?cased @ replicate k 46" ..
  have "fst (transcribe_whisper lib get_function decode_meta model settings audio_stream cache w)
      = Inr (finalize_transcript decode_meta model (rstrip_char 46 ?cased))"
    using transcribe_whisper_text [OF assms(1-3)] assms(4) n
    by (simp add: whisper_phrase_def)
  with n k rstrip_char_spec(2) [of 46 ?cased] show ?thesis by metis
qed

lemmas backend_eval =
  keep_case_def keep_meta_def vi_model_def en_model_def ex_settings_def ex_world_def
  log_event_def collect_audio_def Let_def

lemma ex_whisper_load:
  "whisper_load_model ex_whisper en_model Map.empty ex_world
     = (Inr (), [ascii ''m'' \<mapsto> ()], log_event (LoadPipeline (ascii ''m'')) ex_world)"
  by (simp add: whisper_load_model_def whisper_model_id_def ex_whisper_def backend_eval ascii_def)

lemma ex_whisper_recognize:
  "whisper_recognize ex_whisper () [[1, 0], [], [2, 0]] w
     = (Inr (Some (ascii ''ok..'')), log_event RunPipeline w)"
  by (simp add: whisper_recognize_def ex_whisper_def strip_def is_space_def ascii_def
      collect_audio_def Let_def)

theorem C10_whisper_trailing_periods_witness:
  "fst (transcribe_whisper ex_whisper keep_case keep_meta en_model ex_settings
          [[1, 0], [], [2, 0]] Map.empty ex_world)
     = Inr (ascii ''ok'')"
proof -
  have imp: "transformers_importable ex_whisper" by (simp add: ex_whisper_def)
  have ne: "ascii ''ok..'' \<noteq> []" by (simp add: ascii_def)
  from C10_whisper_trailing_periods [OF imp ex_whisper_load ex_whisper_recognize ne,
      of keep_case keep_meta ex_settings]
  obtain normalized where
    n: "normalized = whisper_finalize_input (keep_case (casing en_model)) (ascii ''ok..'')"
    and r: "fst (transcribe_whisper ex_whisper keep_case keep_meta en_model ex_settings
                  [[1, 0], [], [2, 0]] Map.empty ex_world)
              = Inr (finalize_transcript keep_meta en_model normalized)"
    by blast
  from n have "normalized = ascii ''ok''"
    by (simp add: whisper_finalize_input_def rstrip_char_def keep_case_def ascii_def)
  then have "finalize_transcript keep_meta en_model normalized = ascii ''ok''"
    by (simp add: finalize_transcript_def strip_def is_space_def keep_meta_def en_model_def
        ascii_def)
  with r show ?thesis by simp
qed

subsection \<open>Empty audio\<close>

lemma collect_audio_empty:
  "\<forall>chunk \<in> set audio_stream. chunk = [] \<Longrightarrow> collect_audio audio_stream = []"
  by (induction audio_stream) (auto simp: collect_audio_def)

lemma vosk_feed_empty:
  "\<forall>chunk \<in> set audio_stream. chunk = [] \<Longrightarrow>
   vosk_feed lib recognizer fragments w audio_stream = (recognizer, fragments, w)"
  by (induction audio_stream) auto

lemma vosk_recognize_empty:
  "\<forall>chunk \<in> set audio_stream. chunk = [] \<Longrightarrow>
   vosk_recognize lib m audio_stream w =
     ((if strip (final_result_text lib (kaldi_recognizer lib m)) \<noteq> []
       then [strip (final_result_text lib (kaldi_recognizer lib m))] else []),
      log_event FinalResult w)"
  by (simp add: vosk_recognize_def vosk_feed_empty Let_def)

lemma whisper_recognize_empty:
  "\<forall>chunk \<in> set audio_stream. chunk = [] \<Longrightarrow>
   whisper_recognize lib transcriber audio_stream w = (Inr None, w)"
  by (simp add: whisper_recognize_def collect_audio_empty)

lemma vietasr_recognize_empty:
  "\<forall>chunk \<in> set audio_stream. chunk = [] \<Longrightarrow>
   vietasr_recognize lib resources audio_stream w = (Inr None, w)"
  by (simp add: vietasr_recognize_def collect_audio_empty)

lemma chunkformer_recognize_empty:
  "\<forall>chunk \<in> set audio_stream. chunk = [] \<Longrightarrow>
   chunkformer_recognize lib resources audio_stream w = (Inr None, w)"
  by (simp add: chunkformer_recognize_def collect_audio_empty)

text \<open>Loading invokes no inference operation.\<close>

lemma inference_log_event [simp]:
  "inference_log (log_event e w) = inference_log w @ (if is_inference e then [e] else [])"
  by (simp add: inference_log_def log_event_def)

lemma mkdir_inference: "mkdir p w = (r, w') \<Longrightarrow> inference_log w' = inference_log w"
  by (auto simp: mkdir_def Let_def inference_log_def log_event_def
      split: if_splits option.splits)

lemma inference_log_files [simp]: "inference_log (w\<lparr>files := f\<rparr>) = inference_log w"
  by (simp add: inference_log_def)

lemma vosk_load_model_inference:
  "vosk_load_model lib model settings cache w = (r, cache', w') \<Longrightarrow>
   inference_log w' = inference_log w"
  by (auto simp: vosk_load_model_def Let_def split: if_splits option.splits sum.splits)

lemma whisper_load_model_inference:
  "whisper_load_model lib model cache w = (r, cache', w') \<Longrightarrow>
   inference_log w' = inference_log w"
  by (auto simp: whisper_load_model_def Let_def split: option.splits sum.splits)

lemma vietasr_load_resources_inference:
  "vietasr_load_resources lib model settings cache w = (r, cache', w') \<Longrightarrow>
   inference_log w' = inference_log w"
  by (auto simp: vietasr_load_resources_def Let_def
      split: if_splits option.splits sum.splits prod.splits dest!: mkdir_inference)

lemma inference_log_probes:
  "inference_log (foldl (\<lambda>w name. log_event (Exists (f name)) w) w names) = inference_log w"
  by (induction names arbitrary: w) simp_all

lemma ensure_model_files_inference:
  "ensure_model_files lib model model_dir w = (r, w') \<Longrightarrow> inference_log w' = inference_log w"
  by (auto simp: ensure_model_files_def Let_def inference_log_probes
      split: if_splits option.splits sum.splits)

lemma chunkformer_load_resources_inference:
  "chunkformer_load_resources lib model settings cache w = (r, cache', w') \<Longrightarrow>
   inference_log w' = inference_log w"
  by (auto simp: chunkformer_load_resources_def Let_def
      split: if_splits option.splits sum.splits prod.splits
      dest!: ensure_model_files_inference mkdir_inference)

lemma transcribe_whisper_inference:
  assumes "\<forall>chunk \<in> set audio_stream. chunk = []"
  shows "inference_log (snd (snd (transcribe_whisper lib get_function decode_meta model settings
            audio_stream cache w))) = inference_log w"
proof (cases "whisper_load_model lib model cache w")
  case (fields r cache' w')
  then have "inference_log w' = inference_log w" by (rule whisper_load_model_inference)
  with fields assms show ?thesis
    by (cases r) (simp_all add: transcribe_whisper_def whisper_recognize_empty)
qed

lemma transcribe_vietasr_inference:
  assumes "\<forall>chunk \<in> set audio_stream. chunk = []"
  shows "inference_log (snd (snd (transcribe_vietasr lib get_function decode_meta model settings
            audio_stream cache w))) = inference_log w"
proof (cases "vietasr_load_resources lib model settings cache w")
  case (fields r cache' w')
  then have "inference_log w' = inference_log w" by (rule vietasr_load_resources_inference)
  with fields assms show ?thesis
    by (cases r; cases "vietasr_require_dependencies lib")
       (simp_all add: transcribe_vietasr_def vietasr_recognize_empty)
qed

lemma transcribe_chunkformer_inference:
  assumes "\<forall>chunk \<in> set audio_stream. chunk = []"
  shows "inference_log (snd (snd (transcribe_chunkformer lib get_function decode_meta model
            settings audio_stream cache w))) = inference_log w"
proof (cases "chunkformer_load_resources lib model settings cache w")
  case (fields r cache' w')
  then have "inference_log w' = inference_log w" by (rule chunkformer_load_resources_inference)
  with fields assms show ?thesis
    by (cases r; cases "chunkformer_require_dependencies lib")
       (simp_all add: transcribe_chunkformer_def chunkformer_recognize_empty)
qed

text \<open>
  Claim C2, as amended. Let the audio stream deliver no chunk or only empty chunks.
  In the Whisper, VietASR and ChunkFormer backends no inference operation is invoked
  during the call, whatever its outcome, and when the dependency check and the loading
  of the resources succeed the entry point returns the empty string, leaving the world
  as the loading left it. In the Vosk backend, when the model is there, the recognizer
  is not fed, its \<open>FinalResult\<close> is called once, and the entry point returns the empty
  string if the text of that final result is blank (the decoded cased text otherwise).
\<close>

theorem C2_empty_audio:
  assumes "\<forall>chunk \<in> set audio_stream. chunk = []"
  shows "inference_log (snd (snd (transcribe_whisper whisper_lib get_function decode_meta model
            settings audio_stream whisper_cache w))) = inference_log w
     \<and> inference_log (snd (snd (transcribe_vietasr vietasr_lib get_function decode_meta model
            settings audio_stream vietasr_cache w))) = inference_log w
     \<and> inference_log (snd (snd (transcribe_chunkformer chunkformer_lib get_function decode_meta
            model settings audio_stream chunkformer_cache w))) = inference_log w
     \<and> (transformers_importable whisper_lib
          \<and> whisper_load_model whisper_lib model whisper_cache w
              = (Inr transcriber, whisper_cache', w1)
          \<longrightarrow> transcribe_whisper whisper_lib get_function decode_meta model settings
                 audio_stream whisper_cache w = (Inr [], whisper_cache', w1))
     \<and> (vietasr_require_dependencies vietasr_lib = Inr ()
          \<and> vietasr_load_resources vietasr_lib model settings vietasr_cache w
              = (Inr vietasr_res, vietasr_cache', w1)
          \<longrightarrow> transcribe_vietasr vietasr_lib get_function decode_meta model settings
                 audio_stream vietasr_cache w = (Inr [], vietasr_cache', w1))
     \<and> (chunkformer_require_dependencies chunkformer_lib = Inr ()
          \<and> chunkformer_load_resources chunkformer_lib model settings chunkformer_cache w
              = (Inr chunkformer_res, chunkformer_cache', w1)
          \<longrightarrow> transcribe_chunkformer chunkformer_lib get_function decode_meta model settings
                 audio_stream chunkformer_cache w = (Inr [], chunkformer_cache', w1))
     \<and> (vosk_importable vosk_lib
          \<and> vosk_load_model vosk_lib model settings vosk_cache w = (Inr vosk_m, vosk_cache', w1)
          \<longrightarrow> transcribe_vosk vosk_lib get_function decode_meta model settings
                 audio_stream vosk_cache w
               = (Inr (let final_text =
                             strip (final_result_text vosk_lib (kaldi_recognizer vosk_lib vosk_m))
                       in if final_text = [] then []
                          else decode_meta (get_function (casing model) final_text)),
                  vosk_cache', log_event FinalResult w1)
              \<and> inference_log (log_event FinalResult w1) = inference_log w @ [FinalResult])"
proof (intro conjI impI)
  show "inference_log (snd (snd (transcribe_whisper whisper_lib get_function decode_meta model
            settings audio_stream whisper_cache w))) = inference_log w"
    using assms by (rule transcribe_whisper_inference)
  show "inference_log (snd (snd (transcribe_vietasr vietasr_lib get_function decode_meta model
            settings audio_stream vietasr_cache w))) = inference_log w"
    using assms by (rule transcribe_vietasr_inference)
  show "inference_log (snd (snd (transcribe_chunkformer chunkformer_lib get_function decode_meta
            model settings audio_stream chunkformer_cache w))) = inference_log w"
    using assms by (rule transcribe_chunkformer_inference)
next
  assume "transformers_importable whisper_lib
          \<and> whisper_load_model whisper_lib model whisper_cache w
              = (Inr transcriber, whisper_cache', w1)"
  then show "transcribe_whisper whisper_lib get_function decode_meta model settings
                 audio_stream whisper_cache w = (Inr [], whisper_cache', w1)"
    using assms by (simp add: transcribe_whisper_def whisper_recognize_empty)
next
  assume "vietasr_require_dependencies vietasr_lib = Inr ()
          \<and> vietasr_load_resources vietasr_lib model settings vietasr_cache w
              = (Inr vietasr_res, vietasr_cache', w1)"
  then show "transcribe_vietasr vietasr_lib get_function decode_meta model settings
                 audio_stream vietasr_cache w = (Inr [], vietasr_cache', w1)"
    using assms by (simp add: transcribe_vietasr_def vietasr_recognize_empty)
next
  assume "chunkformer_require_dependencies chunkformer_lib = Inr ()
          \<and> chunkformer_load_resources chunkformer_lib model settings chunkformer_cache w
              = (Inr chunkformer_res, chunkformer_cache', w1)"
  then show "transcribe_chunkformer chunkformer_lib get_function decode_meta model settings
                 audio_stream chunkformer_cache w = (Inr [], chunkformer_cache', w1)"
    using assms by (simp add: transcribe_chunkformer_def chunkformer_recognize_empty)
next
  assume a: "vosk_importable vosk_lib
          \<and> vosk_load_model vosk_lib model settings vosk_cache w = (Inr vosk_m, vosk_cache', w1)"
  then show "transcribe_vosk vosk_lib get_function decode_meta model settings
                 audio_stream vosk_cache w
               = (Inr (let final_text =
                             strip (final_result_text vosk_lib (kaldi_recognizer vosk_lib vosk_m))
                       in if final_text = [] then []
                          else decode_meta (get_function (casing model) final_text)),
                  vosk_cache', log_event FinalResult w1)"
    using assms by (simp add: transcribe_vosk_def vosk_recognize_empty vosk_phrase_def Let_def)
  from a have "inference_log w1 = inference_log w"
    by (intro vosk_load_model_inference [of vosk_lib model settings vosk_cache w]) blast
  then show "inference_log (log_event FinalResult w1) = inference_log w @ [FinalResult]"
    by simp
qed

theorem C2_empty_audio_witness:
  "transcribe_whisper ex_whisper keep_case keep_meta en_model ex_settings [[], []]
       Map.empty ex_world
     = (Inr [], [ascii ''m'' \<mapsto> ()], log_event (LoadPipeline (ascii ''m'')) ex_world)
   \<and> fst (transcribe_vietasr ex_vietasr keep_case keep_meta vi_model ex_settings [[], []]
            Map.empty ex_world) = Inr []
   \<and> fst (transcribe_chunkformer (ex_chunkformer (Inr DecodedNone)) keep_case keep_meta
            vi_model ex_settings [[], []] Map.empty cf_world) = Inr []
   \<and> fst (transcribe_vosk ex_vosk keep_case keep_meta en_model ex_settings [[], []]
            Map.empty ex_world) = Inr []"
proof -
  have e: "\<forall>chunk \<in> set [[], []]. chunk = ([]::bytes)" by simp
  have wi: "transformers_importable ex_whisper" by (simp add: ex_whisper_def)
  have 1: "transcribe_whisper ex_whisper keep_case keep_meta en_model ex_settings [[], []]
       Map.empty ex_world
     = (Inr [], [ascii ''m'' \<mapsto> ()], log_event (LoadPipeline (ascii ''m'')) ex_world)"
    by (rule C2_empty_audio [OF e, THEN conjunct2, THEN conjunct2, THEN conjunct2,
          THEN conjunct1, THEN mp, OF conjI [OF wi ex_whisper_load_en]])
  have vd: "vietasr_require_dependencies ex_vietasr = Inr ()"
    by (simp add: vietasr_require_dependencies_def ex_vietasr_def)
  obtain vc vw where vl:
    "vietasr_load_resources ex_vietasr vi_model ex_settings Map.empty ex_world
       = (Inr \<lparr>res_model = (), res_fbank = (), res_device = Cpu,
                res_tokens = [ascii ''<blk>'', 9601 # ascii ''ba'', 9601 # ascii ''x'']\<rparr>, vc, vw)"
    using ex_vietasr_load by blast
  have "transcribe_vietasr ex_vietasr keep_case keep_meta vi_model ex_settings [[], []]
            Map.empty ex_world = (Inr [], vc, vw)"
    by (rule C2_empty_audio [OF e, THEN conjunct2, THEN conjunct2, THEN conjunct2,
          THEN conjunct2, THEN conjunct1, THEN mp, OF conjI [OF vd vl]])
  then have 2: "fst (transcribe_vietasr ex_vietasr keep_case keep_meta vi_model ex_settings
            [[], []] Map.empty ex_world) = Inr []"
    by simp
  have cd: "chunkformer_require_dependencies (ex_chunkformer (Inr DecodedNone)) = Inr ()"
    by (simp add: chunkformer_require_dependencies_def ex_chunkformer_def)
  obtain cc cw where cl:
    "chunkformer_load_resources (ex_chunkformer (Inr DecodedNone)) vi_model ex_settings
       Map.empty cf_world = (Inr \<lparr>cf_model = (), cf_device = Cpu\<rparr>, cc, cw)"
    using ex_chunkformer_load by blast
  have "transcribe_chunkformer (ex_chunkformer (Inr DecodedNone)) keep_case keep_meta
            vi_model ex_settings [[], []] Map.empty cf_world = (Inr [], cc, cw)"
    by (rule C2_empty_audio [OF e, THEN conjunct2, THEN conjunct2, THEN conjunct2,
          THEN conjunct2, THEN conjunct2, THEN conjunct1, THEN mp, OF conjI [OF cd cl]])
  then have 3: "fst (transcribe_chunkformer (ex_chunkformer (Inr DecodedNone)) keep_case
            keep_meta vi_model ex_settings [[], []] Map.empty cf_world) = Inr []"
    by simp
  have vo: "vosk_importable ex_vosk" by (simp add: ex_vosk_def)
  from C2_empty_audio [where decode_meta = keep_meta and get_function = keep_case,
          OF e, THEN conjunct2, THEN conjunct2, THEN conjunct2,
          THEN conjunct2, THEN conjunct2, THEN conjunct2, THEN mp,
          OF conjI [OF vo ex_vosk_load_en], THEN conjunct1]
  have 4: "fst (transcribe_vosk ex_vosk keep_case keep_meta en_model ex_settings [[], []]
            Map.empty ex_world) = Inr []"
    by (simp add: ex_vosk_def strip_def)
  from 1 2 3 4 show ?thesis by blast
qed

lemma ex_vosk_silent_run:
  "transcribe_vosk ex_vosk keep_case keep_meta en_model ex_settings [[], []] Map.empty ex_world
     = (Inr [], [ascii ''/models/m'' \<mapsto> ()],
        log_event FinalResult
          (log_event (LoadModel (ascii ''/models/m''))
             (log_event (IsDir (ascii ''/models/m'')) ex_world)))"
  by (simp add: transcribe_vosk_def ex_vosk_load_en vosk_recognize_def vosk_phrase_def
      strip_def Let_def)
     (simp add: ex_vosk_def)

text \<open>
  The claim as worded fails for the Vosk backend: on a stream of two empty chunks the
  entry point returns the empty string, but the recognizer's \<open>FinalResult\<close> has
  been invoked.
\<close>

theorem C2_counterexample:
  "fst (transcribe_vosk ex_vosk keep_case keep_meta en_model ex_settings [[], []]
          Map.empty ex_world) = Inr []
   \<and> filter is_inference
        (log (snd (snd (transcribe_vosk ex_vosk keep_case keep_meta en_model ex_settings
                          [[], []] Map.empty ex_world))))
       = [FinalResult]"
  unfolding ex_vosk_silent_run by (simp add: log_event_def ex_world_def)

subsection \<open>The resource caches\<close>

lemma vietasr_load_resources_hit:
  "cache (model_data_dir settings (model_id model)) = Some cached \<Longrightarrow>
   vietasr_load_resources lib model settings cache w
     = ((case fst (mkdir (model_data_dir settings (model_id model)) w) of
           Inl e \<Rightarrow> Inl e | Inr u \<Rightarrow> Inr cached),
        cache, snd (mkdir (model_data_dir settings (model_id model)) w))"
  by (simp add: vietasr_load_resources_def Let_def split: prod.splits sum.splits)

lemma chunkformer_load_resources_hit:
  "cache (model_data_dir settings (model_id model)) = Some cached \<Longrightarrow>
   chunkformer_load_resources lib model settings cache w
     = ((case fst (mkdir (model_data_dir settings (model_id model)) w) of
           Inl e \<Rightarrow> Inl e | Inr u \<Rightarrow> Inr cached),
        cache, snd (mkdir (model_data_dir settings (model_id model)) w))"
  by (simp add: chunkformer_load_resources_def Let_def split: prod.splits sum.splits)

lemma mkdir_outcome:
  "p \<in> dirs w \<Longrightarrow> fst (mkdir p w) = Inr ()"
  "p \<notin> dirs w \<Longrightarrow> p \<in> dom (files w) \<Longrightarrow>
   fst (mkdir p w) = Inl (Raised (Exception (ascii ''FileExistsError'')))"
  "log (snd (mkdir p w)) = log w @ [Mkdir p]"
  "files (snd (mkdir p w)) = files w"
  by (auto simp: mkdir_def log_event_def Let_def split: option.splits)

lemma vosk_load_model_hit:
  "cache (path_join (models_dir settings) (model_id model)) = Some cached \<Longrightarrow>
   vosk_load_model lib model settings cache w
     = ((if path_join (models_dir settings) (model_id model) \<in> dirs w then Inr cached
         else Inl (TranscribingError
                (ModelDirectoryMissing (path_join (models_dir settings) (model_id model))))),
        cache, log_event (IsDir (path_join (models_dir settings) (model_id model))) w)"
  by (simp add: vosk_load_model_def Let_def log_event_def)

lemma vietasr_load_resources_mono:
  "vietasr_load_resources lib model settings cache w = (r, cache', w') \<Longrightarrow> cache \<subseteq>\<^sub>m cache'"
  by (auto simp: vietasr_load_resources_def Let_def map_le_def
      split: if_splits option.splits sum.splits prod.splits)

lemma chunkformer_load_resources_mono:
  "chunkformer_load_resources lib model settings cache w = (r, cache', w') \<Longrightarrow> cache \<subseteq>\<^sub>m cache'"
  by (auto simp: chunkformer_load_resources_def Let_def map_le_def
      split: if_splits option.splits sum.splits prod.splits)

lemma vosk_load_model_mono:
  "vosk_load_model lib model settings cache w = (r, cache', w') \<Longrightarrow> cache \<subseteq>\<^sub>m cache'"
  by (auto simp: vosk_load_model_def Let_def map_le_def
      split: if_splits option.splits sum.splits)

lemma load_all_mono:
  assumes "\<And>m cache w r cache' w'. load m cache w = (r, cache', w') \<Longrightarrow> cache \<subseteq>\<^sub>m cache'"
  shows "cache \<subseteq>\<^sub>m fst (load_all load ms cache w)"
proof (induction ms arbitrary: cache w)
  case Nil
  then show ?case by simp
next
  case (Cons m ms)
  obtain r cache' w' where l: "load m cache w = (r, cache', w')" by (cases "load m cache w")
  from l have "cache \<subseteq>\<^sub>m cache'" by (rule assms)
  also have "cache' \<subseteq>\<^sub>m fst (load_all load ms cache' w')" by (rule Cons.IH)
  finally show ?case using l by simp
qed

text \<open>
  Claim C3, as amended. When the model directory is a key of the cache, the loading
  function leaves the cache as it is and does not invoke the loader, and its one access
  to the disk is the step that comes before the lookup. In VietASR and ChunkFormer
  that step is the creation of the model directory: when it succeeds, as it does when
  the directory exists, the cached entry is returned; when it raises, as it does with
  \<open>FileExistsError\<close> when the path is a regular file, the call raises the same error
  instead. In Vosk the step is the test that the model directory is a directory: the
  cached entry is returned when it is, and the call raises \<open>TranscribingError\<close> when
  it is not. Over sequential requests an entry of the cache is never replaced or
  removed, so a model directory has at most one loaded resource set.
\<close>

theorem C3_cache_hit:
  "(vietasr_cache (model_data_dir settings (model_id model)) = Some vietasr_cached \<longrightarrow>
      vietasr_load_resources vietasr_lib model settings vietasr_cache w
        = ((case fst (mkdir (model_data_dir settings (model_id model)) w) of
              Inl e \<Rightarrow> Inl e | Inr u \<Rightarrow> Inr vietasr_cached),
           vietasr_cache, snd (mkdir (model_data_dir settings (model_id model)) w)))
   \<and> (chunkformer_cache (model_data_dir settings (model_id model)) = Some chunkformer_cached \<longrightarrow>
      chunkformer_load_resources chunkformer_lib model settings chunkformer_cache w
        = ((case fst (mkdir (model_data_dir settings (model_id model)) w) of
              Inl e \<Rightarrow> Inl e | Inr u \<Rightarrow> Inr chunkformer_cached),
           chunkformer_cache, snd (mkdir (model_data_dir settings (model_id model)) w)))
   \<and> (vosk_cache (path_join (models_dir settings) (model_id model)) = Some vosk_cached \<longrightarrow>
      vosk_load_model vosk_lib model settings vosk_cache w
        = ((if path_join (models_dir settings) (model_id model) \<in> dirs w then Inr vosk_cached
            else Inl (TranscribingError
                   (ModelDirectoryMissing (path_join (models_dir settings) (model_id model))))),
           vosk_cache,
           log_event (IsDir (path_join (models_dir settings) (model_id model))) w))
   \<and> (p \<in> dirs w \<longrightarrow> fst (mkdir p w) = Inr ())
   \<and> (p \<notin> dirs w \<and> p \<in> dom (files w) \<longrightarrow>
        fst (mkdir p w) = Inl (Raised (Exception (ascii ''FileExistsError''))))
   \<and> log (snd (mkdir p w)) = log w @ [Mkdir p] \<and> files (snd (mkdir p w)) = files w
   \<and> log (log_event (IsDir p) w) = log w @ [IsDir p]
   \<and> \<not> is_load (Mkdir p) \<and> \<not> is_load (IsDir p)
   \<and> vietasr_cache \<subseteq>\<^sub>m
       fst (load_all (\<lambda>m. vietasr_load_resources vietasr_lib m settings) models vietasr_cache w)
   \<and> chunkformer_cache \<subseteq>\<^sub>m
       fst (load_all (\<lambda>m. chunkformer_load_resources chunkformer_lib m settings) models
              chunkformer_cache w)
   \<and> vosk_cache \<subseteq>\<^sub>m
       fst (load_all (\<lambda>m. vosk_load_model vosk_lib m settings) models vosk_cache w)"
proof (intro conjI impI)
  show "vietasr_cache \<subseteq>\<^sub>m
       fst (load_all (\<lambda>m. vietasr_load_resources vietasr_lib m settings) models vietasr_cache w)"
    by (rule load_all_mono) (rule vietasr_load_resources_mono)
  show "chunkformer_cache \<subseteq>\<^sub>m
       fst (load_all (\<lambda>m. chunkformer_load_resources chunkformer_lib m settings) models
              chunkformer_cache w)"
    by (rule load_all_mono) (rule chunkformer_load_resources_mono)
  show "vosk_cache \<subseteq>\<^sub>m
       fst (load_all (\<lambda>m. vosk_load_model vosk_lib m settings) models vosk_cache w)"
    by (rule load_all_mono) (rule vosk_load_model_mono)
qed (simp_all add: vietasr_load_resources_hit chunkformer_load_resources_hit
       vosk_load_model_hit mkdir_outcome log_event_def)

theorem C3_cache_hit_witness:
  "vietasr_load_resources ex_vietasr vi_model ex_settings [ascii ''/data/m'' \<mapsto> ex_resources]
       ex_world
     = (Inr ex_resources, [ascii ''/data/m'' \<mapsto> ex_resources],
        snd (mkdir (ascii ''/data/m'') ex_world))
   \<and> fst (vietasr_load_resources ex_vietasr vi_model ex_settings
            [ascii ''/data/m'' \<mapsto> ex_resources]
            (ex_world\<lparr>dirs := {}, files := [ascii ''/data/m'' \<mapsto> Lines []]\<rparr>))
     = Inl (Raised (Exception (ascii ''FileExistsError'')))
   \<and> vosk_load_model ex_vosk vi_model ex_settings [ascii ''/models/m'' \<mapsto> ()] ex_world
     = (Inr (), [ascii ''/models/m'' \<mapsto> ()], log_event (IsDir (ascii ''/models/m'')) ex_world)"
proof -
  have k: "model_data_dir ex_settings (model_id vi_model) = ascii ''/data/m''"
    by (simp add: ex_settings_def vi_model_def ascii_def)
  have h: "[ascii ''/data/m'' \<mapsto> ex_resources] (model_data_dir ex_settings (model_id vi_model))
             = Some ex_resources"
    by (simp add: k)
  have dd: "ascii ''/data/m'' \<in> dirs ex_world" by (simp add: ex_world_def)
  from C3_cache_hit [where p = "ascii ''/data/m''" and w = ex_world,
        THEN conjunct2, THEN conjunct2, THEN conjunct2, THEN conjunct1, THEN mp, OF dd]
  have m: "fst (mkdir (ascii ''/data/m'') ex_world) = Inr ()" .
  from C3_cache_hit [where vietasr_cache = "[ascii ''/data/m'' \<mapsto> ex_resources]"
        and settings = ex_settings and model = vi_model and vietasr_lib = ex_vietasr
        and w = ex_world, THEN conjunct1, THEN mp, OF h]
  have 1: "vietasr_load_resources ex_vietasr vi_model ex_settings
             [ascii ''/data/m'' \<mapsto> ex_resources] ex_world
     = (Inr ex_resources, [ascii ''/data/m'' \<mapsto> ex_resources],
        snd (mkdir (ascii ''/data/m'') ex_world))"
    by (simp add: k m)
  let ?fw = "ex_world\<lparr>dirs := {}, files := [ascii ''/data/m'' \<mapsto> Lines []]\<rparr>"
  have fd: "ascii ''/data/m'' \<notin> dirs ?fw \<and> ascii ''/data/m'' \<in> dom (files ?fw)" by simp
  from C3_cache_hit [where p = "ascii ''/data/m''" and w = ?fw,
        THEN conjunct2, THEN conjunct2, THEN conjunct2, THEN conjunct2, THEN conjunct1,
        THEN mp, OF fd]
  have fm: "fst (mkdir (ascii ''/data/m'') ?fw)
      = Inl (Raised (Exception (ascii ''FileExistsError'')))" .
  from C3_cache_hit [where vietasr_cache = "[ascii ''/data/m'' \<mapsto> ex_resources]"
        and settings = ex_settings and model = vi_model and vietasr_lib = ex_vietasr
        and w = ?fw, THEN conjunct1, THEN mp, OF h]
  have 2: "fst (vietasr_load_resources ex_vietasr vi_model ex_settings
            [ascii ''/data/m'' \<mapsto> ex_resources] ?fw)
     = Inl (Raised (Exception (ascii ''FileExistsError'')))"
    by (simp add: k fm)
  have kv: "path_join (models_dir ex_settings) (model_id vi_model) = ascii ''/models/m''"
    by (simp add: ex_settings_def vi_model_def path_join_def ascii_def)
  have hv: "[ascii ''/models/m'' \<mapsto> ()] (path_join (models_dir ex_settings) (model_id vi_model))
             = Some ()"
    by (simp add: kv)
  have d: "ascii ''/models/m'' \<in> dirs ex_world" by (simp add: ex_world_def)
  from C3_cache_hit [where vosk_cache = "[ascii ''/models/m'' \<mapsto> ()]"
        and settings = ex_settings and model = vi_model and vosk_lib = ex_vosk
        and w = ex_world, THEN conjunct2, THEN conjunct2, THEN conjunct1, THEN mp, OF hv]
  have 3: "vosk_load_model ex_vosk vi_model ex_settings [ascii ''/models/m'' \<mapsto> ()] ex_world
     = (Inr (), [ascii ''/models/m'' \<mapsto> ()], log_event (IsDir (ascii ''/models/m'')) ex_world)"
    using d by (simp add: kv)
  from 1 2 3 show ?thesis by blast
qed

lemma ex_vietasr_hit:
  "vietasr_load_resources ex_vietasr vi_model ex_settings [ascii ''/data/m'' \<mapsto> ex_resources]
       ex_world
     = (Inr ex_resources, [ascii ''/data/m'' \<mapsto> ex_resources],
        log_event (Mkdir (ascii ''/data/m'')) ex_world)"
  by (simp add: vietasr_load_resources_def mkdir_def log_event_def ex_world_def ex_settings_def
      vi_model_def ascii_def Let_def)

text \<open>
  The claim as worded fails: a call of the VietASR loader whose key is in the cache
  still performs a disk access, the creation of the model directory.
\<close>

theorem C3_counterexample:
  "[ascii ''/data/m'' \<mapsto> ex_resources] (model_data_dir ex_settings (model_id vi_model))
     = Some ex_resources
   \<and> log (snd (snd (vietasr_load_resources ex_vietasr vi_model ex_settings
                      [ascii ''/data/m'' \<mapsto> ex_resources] ex_world)))
       = [Mkdir (ascii ''/data/m'')]
   \<and> is_disk_access (Mkdir (ascii ''/data/m''))"
  unfolding ex_vietasr_hit
  by (simp add: log_event_def ex_world_def ex_settings_def vi_model_def ascii_def)

text \<open>The directories above the model directory of the examples.\<close>

lemma ancestors_example: "ancestors (ascii ''/data/m'') = [ascii ''/data'']"
  by (simp add: ancestors_def ascii_def upt_rec [of 1] upt_rec [of 2] upt_rec [of 3]
      upt_rec [of 4] upt_rec [of 5] upt_rec [of 6] upt_rec [of 7])

subsection \<open>The temporary WAV file\<close>

lemma write_temp_wav_spec:
  assumes "write_temp_wav lib audio_bytes w = (temp_path, w')"
  shows "temp_path = mkstemp lib w"
    and "files w' = (files w)(temp_path \<mapsto> Wav audio_bytes)"
    and "log w' = log w @ [MkTemp temp_path, WriteFile temp_path]"
    and "dirs w' = dirs w"
  using assms by (auto simp: write_temp_wav_def Let_def log_event_def)

lemma decode_temp_file_spec:
  assumes "decode_temp_file lib resources temp_path w = (outcome, w')"
  shows "files w' = (files w)(temp_path := None)"
    and "log w' = log w @ [EndlessDecode temp_path, Unlink temp_path]"
    and "outcome =
           (case endless_decode lib (cf_model resources) temp_path w of
              Inl e \<Rightarrow> Inl (reraise TranscriptionFailed e)
            | Inr decoded \<Rightarrow> Inr decoded)"
  using assms by (auto simp: decode_temp_file_def unlink_def Let_def log_event_def)

text \<open>
  Claim C8. In \<open>transcribe_chunkformer\<close>, once \<open>_write_temp_wav\<close> has made the
  file, the file is gone when the call ends, on each way out: when
  \<open>endless_decode\<close> returns, when it raises an \<open>Exception\<close>, which leaves as
  a \<open>TranscribingError\<close>, and when it raises any other \<open>BaseException\<close>, which
  passes through. The calls of the outside world between loading and the end are the
  making and writing of the file, the decoding, and the removal, in this order.
\<close>

theorem C8_temp_file_removed:
  assumes deps: "chunkformer_require_dependencies lib = Inr ()"
    and load: "chunkformer_load_resources lib model settings cache w = (Inr resources, cache', w1)"
    and audio: "collect_audio audio_stream \<noteq> []"
    and temp: "write_temp_wav lib (collect_audio audio_stream) w1 = (temp_path, w2)"
    and run: "transcribe_chunkformer lib get_function decode_meta model settings audio_stream
                cache w = (r, cache'', w3)"
  shows "files w2 temp_path = Some (Wav (collect_audio audio_stream))
     \<and> files w3 temp_path = None
     \<and> log w3 = log w1 @ [MkTemp temp_path, WriteFile temp_path,
                           EndlessDecode temp_path, Unlink temp_path]
     \<and> (case endless_decode lib (cf_model resources) temp_path w2 of
           Inr decoded \<Rightarrow>
             r = Inr (chunkformer_phrase (get_function (casing model)) decode_meta model
                        (decode_to_text decoded))
         | Inl (Exception msg) \<Rightarrow>
             r = Inl (TranscribingError (TranscriptionFailed (Exception msg)))
         | Inl (BaseException msg) \<Rightarrow> r = Inl (Raised (BaseException msg)))"
proof -
  obtain outcome w2' where dec: "decode_temp_file lib resources temp_path w2 = (outcome, w2')"
    by (cases "decode_temp_file lib resources temp_path w2")
  have rec: "chunkformer_recognize lib resources audio_stream w1
      = ((case outcome of Inl e \<Rightarrow> Inl e | Inr decoded \<Rightarrow> Inr (Some (decode_to_text decoded))), w2')"
    using audio temp dec by (simp add: chunkformer_recognize_def Let_def split: sum.splits)
  have w3: "w3 = w2'"
    using run deps load rec
    by (cases outcome) (auto simp: transcribe_chunkformer_def Let_def)
  have r: "r = (case outcome of
                  Inl e \<Rightarrow> Inl e
                | Inr decoded \<Rightarrow>
                    Inr (chunkformer_phrase (get_function (casing model)) decode_meta model
                           (decode_to_text decoded)))"
    using run deps load rec
    by (cases outcome) (auto simp: transcribe_chunkformer_def Let_def)
  from write_temp_wav_spec [OF temp]
  have f2: "files w2 = (files w1)(temp_path \<mapsto> Wav (collect_audio audio_stream))"
    and l2: "log w2 = log w1 @ [MkTemp temp_path, WriteFile temp_path]"
    by simp_all
  from decode_temp_file_spec [OF dec]
  have f3: "files w2' = (files w2)(temp_path := None)"
    and l3: "log w2' = log w2 @ [EndlessDecode temp_path, Unlink temp_path]"
    and o: "outcome =
           (case endless_decode lib (cf_model resources) temp_path w2 of
              Inl e \<Rightarrow> Inl (reraise TranscriptionFailed e)
            | Inr decoded \<Rightarrow> Inr decoded)"
    by simp_all
  have 1: "files w2 temp_path = Some (Wav (collect_audio audio_stream))" by (simp add: f2)
  have 2: "files w3 temp_path = None" by (simp add: w3 f3)
  have 3: "log w3 = log w1 @ [MkTemp temp_path, WriteFile temp_path,
                           EndlessDecode temp_path, Unlink temp_path]"
    by (simp add: w3 l3 l2)
  have 4: "(case endless_decode lib (cf_model resources) temp_path w2 of
           Inr decoded \<Rightarrow>
             r = Inr (chunkformer_phrase (get_function (casing model)) decode_meta model
                        (decode_to_text decoded))
         | Inl (Exception msg) \<Rightarrow>
             r = Inl (TranscribingError (TranscriptionFailed (Exception msg)))
         | Inl (BaseException msg) \<Rightarrow> r = Inl (Raised (BaseException msg)))"
    using r o by (auto split: sum.splits exc.splits)
  from 1 2 3 4 show ?thesis by blast
qed

lemma ex_chunkformer_setup:
  "\<exists>cc w1 w2 r c w3.
     chunkformer_load_resources (ex_chunkformer outcome) vi_model ex_settings Map.empty cf_world
       = (Inr \<lparr>cf_model = (), cf_device = Cpu\<rparr>, cc, w1)
     \<and> write_temp_wav (ex_chunkformer outcome) (collect_audio [[1, 0]]) w1
         = (ascii ''/tmp/a.wav'', w2)
     \<and> transcribe_chunkformer (ex_chunkformer outcome) keep_case keep_meta vi_model
         ex_settings [[1, 0]] Map.empty cf_world = (r, c, w3)"
proof -
  let ?lib = "ex_chunkformer outcome"
  obtain cc w1 where load:
    "chunkformer_load_resources ?lib vi_model ex_settings Map.empty cf_world
       = (Inr \<lparr>cf_model = (), cf_device = Cpu\<rparr>, cc, w1)"
    using ex_chunkformer_load by blast
  obtain temp_path w2 where temp:
    "write_temp_wav ?lib (collect_audio [[1, 0]]) w1 = (temp_path, w2)"
    by (cases "write_temp_wav ?lib (collect_audio [[1, 0]]) w1")
  then have tp: "temp_path = ascii ''/tmp/a.wav''"
    by (simp add: write_temp_wav_def ex_chunkformer_def Let_def)
  obtain r c w3 where run:
    "transcribe_chunkformer ?lib keep_case keep_meta vi_model ex_settings [[1, 0]] Map.empty
       cf_world = (r, c, w3)"
    by (cases "transcribe_chunkformer ?lib keep_case keep_meta vi_model ex_settings [[1, 0]]
                 Map.empty cf_world")
  from load temp tp run show ?thesis by blast
qed

lemma ex_chunkformer_deps: "chunkformer_require_dependencies (ex_chunkformer outcome) = Inr ()"
  by (simp add: chunkformer_require_dependencies_def ex_chunkformer_def)

lemma ex_chunkformer_decode:
  "endless_decode (ex_chunkformer outcome) m p w = outcome"
  by (simp add: ex_chunkformer_def)

lemma ex_audio: "collect_audio [[1, 0]] \<noteq> ([]::bytes)"
  by (simp add: collect_audio_def)

lemma ex_chunkformer_phrase_ba:
  "chunkformer_phrase (keep_case c) keep_meta vi_model
          (decode_to_text (DecodedStr (ascii ''ba''))) = ascii ''ba''"
  by (simp add: chunkformer_phrase_def finalize_transcript_def decode_to_text_def
        keep_case_def keep_meta_def vi_model_def strip_def is_space_def ascii_def
        normalize_vietnamese_transcript_def normalize_cancellation_terms_def replace_def
        replace_from.simps vi_eval)

theorem C8_temp_file_removed_witness:
  "(\<exists>r c w3. transcribe_chunkformer (ex_chunkformer (Inr (DecodedStr (ascii ''ba''))))
        keep_case keep_meta vi_model ex_settings [[1, 0]] Map.empty cf_world = (r, c, w3)
      \<and> files w3 (ascii ''/tmp/a.wav'') = None \<and> r = Inr (ascii ''ba''))
   \<and> (\<exists>r c w3. transcribe_chunkformer (ex_chunkformer (Inl (Exception (ascii ''boom''))))
        keep_case keep_meta vi_model ex_settings [[1, 0]] Map.empty cf_world = (r, c, w3)
      \<and> files w3 (ascii ''/tmp/a.wav'') = None
      \<and> r = Inl (TranscribingError (TranscriptionFailed (Exception (ascii ''boom'')))))
   \<and> (\<exists>r c w3. transcribe_chunkformer (ex_chunkformer (Inl (BaseException (ascii ''stop''))))
        keep_case keep_meta vi_model ex_settings [[1, 0]] Map.empty cf_world = (r, c, w3)
      \<and> files w3 (ascii ''/tmp/a.wav'') = None
      \<and> r = Inl (Raised (BaseException (ascii ''stop''))))"
proof (intro conjI)
  let ?o = "Inr (DecodedStr (ascii ''ba''))"
  from ex_chunkformer_setup [of ?o] obtain cc w1 w2 r c w3 where
    load: "chunkformer_load_resources (ex_chunkformer ?o) vi_model ex_settings Map.empty cf_world
             = (Inr \<lparr>cf_model = (), cf_device = Cpu\<rparr>, cc, w1)"
    and temp: "write_temp_wav (ex_chunkformer ?o) (collect_audio [[1, 0]]) w1
                 = (ascii ''/tmp/a.wav'', w2)"
    and run: "transcribe_chunkformer (ex_chunkformer ?o) keep_case keep_meta vi_model
                ex_settings [[1, 0]] Map.empty cf_world = (r, c, w3)"
    by blast
  from C8_temp_file_removed [OF ex_chunkformer_deps load ex_audio temp run]
  have "files w3 (ascii ''/tmp/a.wav'') = None \<and> r = Inr (ascii ''ba'')"
    by (simp add: ex_chunkformer_decode ex_chunkformer_phrase_ba)
  with run show "\<exists>r c w3. transcribe_chunkformer (ex_chunkformer ?o)
        keep_case keep_meta vi_model ex_settings [[1, 0]] Map.empty cf_world = (r, c, w3)
      \<and> files w3 (ascii ''/tmp/a.wav'') = None \<and> r = Inr (ascii ''ba'')"
    by blast
next
  let ?o = "Inl (Exception (ascii ''boom''))"
  from ex_chunkformer_setup [of ?o] obtain cc w1 w2 r c w3 where
    load: "chunkformer_load_resources (ex_chunkformer ?o) vi_model ex_settings Map.empty cf_world
             = (Inr \<lparr>cf_model = (), cf_device = Cpu\<rparr>, cc, w1)"
    and temp: "write_temp_wav (ex_chunkformer ?o) (collect_audio [[1, 0]]) w1
                 = (ascii ''/tmp/a.wav'', w2)"
    and run: "transcribe_chunkformer (ex_chunkformer ?o) keep_case keep_meta vi_model
                ex_settings [[1, 0]] Map.empty cf_world = (r, c, w3)"
    by blast
  from C8_temp_file_removed [OF ex_chunkformer_deps load ex_audio temp run]
  have "files w3 (ascii ''/tmp/a.wav'') = None
        \<and> r = Inl (TranscribingError (TranscriptionFailed (Exception (ascii ''boom''))))"
    by (simp add: ex_chunkformer_decode)
  with run show "\<exists>r c w3. transcribe_chunkformer (ex_chunkformer ?o)
        keep_case keep_meta vi_model ex_settings [[1, 0]] Map.empty cf_world = (r, c, w3)
      \<and> files w3 (ascii ''/tmp/a.wav'') = None
      \<and> r = Inl (TranscribingError (TranscriptionFailed (Exception (ascii ''boom''))))"
    by blast
next
  let ?o = "Inl (BaseException (ascii ''stop''))"
  from ex_chunkformer_setup [of ?o] obtain cc w1 w2 r c w3 where
    load: "chunkformer_load_resources (ex_chunkformer ?o) vi_model ex_settings Map.empty cf_world
             = (Inr \<lparr>cf_model = (), cf_device = Cpu\<rparr>, cc, w1)"
    and temp: "write_temp_wav (ex_chunkformer ?o) (collect_audio [[1, 0]]) w1
                 = (ascii ''/tmp/a.wav'', w2)"
    and run: "transcribe_chunkformer (ex_chunkformer ?o) keep_case keep_meta vi_model
                ex_settings [[1, 0]] Map.empty cf_world = (r, c, w3)"
    by blast
  from C8_temp_file_removed [OF ex_chunkformer_deps load ex_audio temp run]
  have "files w3 (ascii ''/tmp/a.wav'') = None \<and> r = Inl (Raised (BaseException (ascii ''stop'')))"
    by (simp add: ex_chunkformer_decode)
  with run show "\<exists>r c w3. transcribe_chunkformer (ex_chunkformer ?o)
        keep_case keep_meta vi_model ex_settings [[1, 0]] Map.empty cf_world = (r, c, w3)
      \<and> files w3 (ascii ''/tmp/a.wav'') = None
      \<and> r = Inl (Raised (BaseException (ascii ''stop'')))"
    by blast
qed

section \<open>Normalizing twice\<close>

lemma replace_from_Nil [simp]: "replace_from old new [] = []"
  by (simp add: replace_from.simps [of old new "[]"])

lemma replace_from_match:
  "old \<noteq> [] \<Longrightarrow> take (length old) (c # cs) = old \<Longrightarrow>
   replace_from old new (c # cs) = new @ replace_from old new (drop (length old) (c # cs))"
  by (simp add: replace_from.simps [of old new "c # cs"])

lemma replace_from_step:
  "\<not> (old \<noteq> [] \<and> take (length old) (c # cs) = old) \<Longrightarrow>
   replace_from old new (c # cs) = c # replace_from old new cs"
  by (auto simp: replace_from.simps [of old new "c # cs"])

lemma replace_from_absent: "\<not> contains old s \<Longrightarrow> replace_from old new s = s"
proof (induction s)
  case Nil
  then show ?case by simp
next
  case (Cons c cs)
  then have "take (length old) (c # cs) \<noteq> old" and "\<not> contains old cs" by simp_all
  with Cons.IH show ?case by (simp add: replace_from_step)
qed

lemma replace_absent: "old \<noteq> [] \<Longrightarrow> \<not> contains old s \<Longrightarrow> replace old new s = s"
  by (simp add: replace_def replace_from_absent)

lemma numbers_quiescent:
  assumes "split_ws t = [] \<or>
          t = join [32] (split_ws t)
          \<and> (\<forall>k < length (split_ws t). \<not> run_converts (split_ws t) k)"
  shows "normalize_vietnamese_numbers t = t"
proof (cases "split_ws t = []")
  case True
  then show ?thesis by (simp add: normalize_vietnamese_numbers_def)
next
  case False
  with assms have j: "t = join [32] (split_ws t)"
    and s: "\<forall>k < length (split_ws t). \<not> run_converts (split_ws t) k"
    by simp_all
  from s have "normalize_loop (split_ws t) 0 [] = [] @ drop 0 (split_ws t)"
    by (rule normalize_loop_unconverted)
  with False have "normalize_vietnamese_numbers t = join [32] (split_ws t)"
    by (simp add: normalize_vietnamese_numbers_def)
  with j show ?thesis by simp
qed

lemma transcript_quiescent:
  assumes "quiescent t"
  shows "normalize_vietnamese_transcript t = t"
proof -
  from assms have p: "\<not> contains [116, 105, 118, 105] t" "\<not> contains [116, 105, 32, 118, 105] t"
    "\<not> contains [116, 105, 45, 118, 105] t" "\<not> contains [116, 105, 46, 32, 118, 105] t"
    "\<not> contains [103, 97, 32, 114, 97] t"
    by (simp_all add: quiescent_def literal_patterns_def ascii_def)
  from assms have c: "\<not> contains [104, 7911, 121] t" "\<not> contains [72, 7911, 121] t"
    by (simp_all add: quiescent_def)
  from assms have "normalize_vietnamese_numbers t = t"
    by (intro numbers_quiescent) (simp add: quiescent_def)
  with p c show ?thesis
    by (simp add: normalize_vietnamese_transcript_def normalize_cancellation_terms_def
        replace_absent Let_def)
qed

subsection \<open>Occurrences and replacement\<close>

lemma contains_Nil [simp]: "contains [] s"
  by (cases s) simp_all

lemma contains_prefix: "take (length q) s = q \<Longrightarrow> contains q s"
  by (cases s) auto

lemma contains_drop: "contains q (drop n s) \<Longrightarrow> contains q s"
proof (induction s arbitrary: n)
  case Nil
  then show ?case by simp
next
  case (Cons c cs)
  show ?case
  proof (cases n)
    case 0
    with Cons.prems show ?thesis by simp
  next
    case (Suc m)
    with Cons.prems have "contains q (drop m cs)" by simp
    then have "contains q cs" by (rule Cons.IH)
    then show ?thesis by simp
  qed
qed

lemma contains_append:
  "contains q (a @ b) \<Longrightarrow>
   (\<exists>d < length a. take (length q) (drop d a @ b) = q) \<or> contains q b"
proof (induction a)
  case Nil
  then show ?case by simp
next
  case (Cons c a)
  from Cons.prems have "take (length q) (c # a @ b) = q \<or> contains q (a @ b)" by simp
  then show ?case
  proof
    assume "take (length q) (c # a @ b) = q"
    then have "take (length q) (drop 0 (c # a) @ b) = q" by simp
    then show ?thesis by (intro disjI1 exI [of _ 0]) simp
  next
    assume "contains q (a @ b)"
    from Cons.IH [OF this] show ?thesis
    proof
      assume "\<exists>d < length a. take (length q) (drop d a @ b) = q"
      then obtain d where "d < length a" "take (length q) (drop d a @ b) = q" by blast
      then have "Suc d < length (c # a) \<and> take (length q) (drop (Suc d) (c # a) @ b) = q"
        by simp
      then show ?thesis by blast
    qed simp
  qed
qed

lemma prefix_agree: "take (length q) (a @ b) = q \<Longrightarrow> agree q a"
proof -
  assume h: "take (length q) (a @ b) = q"
  have "take (min (length q) (length a)) q
      = take (min (length q) (length a)) (take (length q) (a @ b))"
    using h by simp
  also have "\<dots> = take (min (length q) (length a)) (a @ b)"
    by (simp add: min_def)
  also have "\<dots> = take (min (length q) (length a)) a"
    by simp
  finally show ?thesis by (simp add: agree_def)
qed

lemma clear_ofD1: "clear_of q new \<Longrightarrow> i < length q \<Longrightarrow> \<not> agree (drop i q) new"
  by (simp add: clear_of_def list_all_iff)

lemma clear_ofD2: "clear_of q new \<Longrightarrow> 0 < d \<Longrightarrow> d < length new \<Longrightarrow> \<not> agree q (drop d new)"
  by (simp add: clear_of_def list_all_iff)

text \<open>A string that no inserted \<open>new\<close> can continue is a prefix of the result only if it is a prefix of the text.\<close>

lemma replace_from_prefix:
  assumes "old \<noteq> []"
  shows "\<forall>i < length q. \<not> agree (drop i q) new \<Longrightarrow>
         take (length q) (replace_from old new s) = q \<Longrightarrow> take (length q) s = q"
proof (induction s arbitrary: q)
  case Nil
  then show ?case by simp
next
  case (Cons c cs)
  show ?case
  proof (cases q)
    case Nil
    then show ?thesis by simp
  next
    case q: (Cons a q')
    show ?thesis
    proof (cases "take (length old) (c # cs) = old")
      case True
      with assms have "replace_from old new (c # cs)
          = new @ replace_from old new (drop (length old) (c # cs))"
        by (simp add: replace_from_match)
      with Cons.prems(2) have "take (length q)
          (new @ replace_from old new (drop (length old) (c # cs))) = q"
        by (simp only:)
      then have "agree q new" by (rule prefix_agree)
      moreover from Cons.prems(1) q have "\<not> agree (drop 0 q) new" by blast
      ultimately show ?thesis by simp
    next
      case False
      then have r: "replace_from old new (c # cs) = c # replace_from old new cs"
        by (simp add: replace_from_step)
      with Cons.prems(2) q have ac: "a = c"
        and t: "take (length q') (replace_from old new cs) = q'"
        by simp_all
      have "\<forall>i < length q'. \<not> agree (drop i q') new"
      proof (intro allI impI)
        fix i assume "i < length q'"
        then have "Suc i < length q" using q by simp
        with Cons.prems(1) have "\<not> agree (drop (Suc i) q) new" by blast
        then show "\<not> agree (drop i q') new" using q by simp
      qed
      from Cons.IH [OF this t] have "take (length q') cs = q'" .
      with ac q show ?thesis by simp
    qed
  qed
qed

lemma replace_from_inserted:
  assumes c: "clear_of q new" and ne: "q \<noteq> []"
    and h: "contains q (new @ rest)"
  shows "contains q rest"
proof -
  from contains_append [OF h] show ?thesis
  proof
    assume "\<exists>d < length new. take (length q) (drop d new @ rest) = q"
    then obtain d where d: "d < length new" and t: "take (length q) (drop d new @ rest) = q"
      by blast
    from t have a: "agree q (drop d new)" by (rule prefix_agree)
    show ?thesis
    proof (cases "d = 0")
      case True
      with a have "agree (drop 0 q) new" by simp
      moreover from ne have "0 < length q" by simp
      ultimately show ?thesis using clear_ofD1 [OF c] by blast
    next
      case False
      with d a clear_ofD2 [OF c, of d] show ?thesis by simp
    qed
  qed
qed

text \<open>
  When no occurrence of \<open>q\<close> can overlap an inserted \<open>new\<close>, replacing makes no new
  occurrence of \<open>q\<close>.
\<close>

lemma replace_from_contains:
  assumes c: "clear_of q new" and old: "old \<noteq> []"
  shows "contains q (replace_from old new s) \<Longrightarrow> contains q s"
proof (induction s rule: length_induct)
  case (1 s)
  show ?case
  proof (cases q)
    case Nil
    then show ?thesis by simp
  next
    case q: (Cons a q')
    show ?thesis
    proof (cases s)
      case Nil
      with "1.prems" show ?thesis by simp
    next
      case s: (Cons c cs)
      show ?thesis
      proof (cases "take (length old) (c # cs) = old")
        case True
        with old s have r: "replace_from old new s
            = new @ replace_from old new (drop (length old) s)"
          by (simp add: replace_from_match)
        from old s have "length (drop (length old) s) < length s" by (cases old) simp_all
        moreover from "1.prems" r q have "contains q (replace_from old new (drop (length old) s))"
          using replace_from_inserted [OF c] by simp
        ultimately have "contains q (drop (length old) s)" using "1.IH" by blast
        then show ?thesis by (rule contains_drop)
      next
        case False
        with s have r: "replace_from old new s = c # replace_from old new cs"
          by (simp add: replace_from_step)
        from "1.prems" r have "take (length q) (replace_from old new s) = q
            \<or> contains q (replace_from old new cs)"
          by auto
        then show ?thesis
        proof
          assume "take (length q) (replace_from old new s) = q"
          moreover have "\<forall>i < length q. \<not> agree (drop i q) new"
            using clear_ofD1 [OF c] by blast
          ultimately have "take (length q) s = q" by (rule replace_from_prefix [OF old, rotated])
          then show ?thesis by (rule contains_prefix)
        next
          assume "contains q (replace_from old new cs)"
          moreover have "length cs < length s" using s by simp
          ultimately have "contains q cs" using "1.IH" by blast
          then show ?thesis using s by simp
        qed
      qed
    qed
  qed
qed

text \<open>After replacing, the replaced string no longer occurs.\<close>

lemma replace_from_removes:
  assumes c: "clear_of old new" and old: "old \<noteq> []"
  shows "\<not> contains old (replace_from old new s)"
proof (induction s rule: length_induct)
  case (1 s)
  show ?case
  proof (cases s)
    case Nil
    with old show ?thesis by simp
  next
    case s: (Cons c' cs)
    show ?thesis
    proof (cases "take (length old) (c' # cs) = old")
      case True
      with old s have r: "replace_from old new s
          = new @ replace_from old new (drop (length old) s)"
        by (simp add: replace_from_match)
      from old s have "length (drop (length old) s) < length s" by (cases old) simp_all
      then have "\<not> contains old (replace_from old new (drop (length old) s))"
        using "1.IH" by blast
      then show ?thesis unfolding r using replace_from_inserted [OF c old] by blast
    next
      case False
      with s have r: "replace_from old new s = c' # replace_from old new cs"
        by (simp add: replace_from_step)
      have "\<not> take (length old) (replace_from old new s) = old"
      proof
        assume "take (length old) (replace_from old new s) = old"
        moreover have "\<forall>i < length old. \<not> agree (drop i old) new"
          using clear_ofD1 [OF c] by blast
        ultimately have "take (length old) s = old" by (rule replace_from_prefix [OF old, rotated])
        with False s show False by simp
      qed
      moreover have "\<not> contains old (replace_from old new cs)"
        using "1.IH" s by simp
      ultimately have "\<not> (take (length old) (c' # replace_from old new cs) = old
          \<or> contains old (replace_from old new cs))"
        unfolding r by blast
      then show ?thesis unfolding r by simp
    qed
  qed
qed

lemma replace_contains:
  "clear_of q new \<Longrightarrow> old \<noteq> [] \<Longrightarrow> contains q (replace old new s) \<Longrightarrow> contains q s"
  by (simp add: replace_def replace_from_contains)

lemma replace_removes:
  "clear_of old new \<Longrightarrow> old \<noteq> [] \<Longrightarrow> \<not> contains old (replace old new s)"
  by (simp add: replace_def replace_from_removes)

lemma contains_set: "q \<noteq> [] \<Longrightarrow> contains q s \<Longrightarrow> set q \<subseteq> set s"
proof (induction s)
  case Nil
  then show ?case by simp
next
  case (Cons c cs)
  from Cons.prems(2) have "take (length q) (c # cs) = q \<or> contains q cs" by simp
  then show ?case
  proof
    assume "take (length q) (c # cs) = q"
    then have "set q = set (take (length q) (c # cs))" by simp
    also have "\<dots> \<subseteq> set (c # cs)" by (rule set_take_subset)
    finally show ?thesis .
  next
    assume "contains q cs"
    with Cons.IH Cons.prems(1) show ?thesis by auto
  qed
qed

lemma replace_from_set: "set (replace_from old new s) \<subseteq> set s \<union> set new"
proof (induction s rule: length_induct)
  case (1 s)
  show ?case
  proof (cases s)
    case Nil
    then show ?thesis by simp
  next
    case s: (Cons c cs)
    show ?thesis
    proof (cases "old \<noteq> [] \<and> take (length old) (c # cs) = old")
      case True
      with s have r: "replace_from old new s
          = new @ replace_from old new (drop (length old) s)"
        by (simp add: replace_from_match)
      from True s have "length (drop (length old) s) < length s" by (cases old) simp_all
      then have "set (replace_from old new (drop (length old) s))
          \<subseteq> set (drop (length old) s) \<union> set new"
        using "1.IH" by blast
      moreover have "set (drop (length old) s) \<subseteq> set s" by (rule set_drop_subset)
      ultimately show ?thesis unfolding r by auto
    next
      case False
      with s have r: "replace_from old new s = c # replace_from old new cs"
        by (simp add: replace_from_step)
      have "set (replace_from old new cs) \<subseteq> set cs \<union> set new"
        using "1.IH" s by simp
      then show ?thesis unfolding r using s by auto
    qed
  qed
qed

lemma replace_from_changed:
  "replace_from old new s \<noteq> s \<Longrightarrow> set new \<subseteq> set (replace_from old new s)"
proof (induction s rule: length_induct)
  case (1 s)
  show ?case
  proof (cases s)
    case Nil
    with "1.prems" show ?thesis by simp
  next
    case s: (Cons c cs)
    show ?thesis
    proof (cases "old \<noteq> [] \<and> take (length old) (c # cs) = old")
      case True
      with s have "replace_from old new s
          = new @ replace_from old new (drop (length old) s)"
        by (simp add: replace_from_match)
      then show ?thesis by simp
    next
      case False
      with s have r: "replace_from old new s = c # replace_from old new cs"
        by (simp add: replace_from_step)
      with "1.prems" s have "replace_from old new cs \<noteq> cs" by simp
      then have "set new \<subseteq> set (replace_from old new cs)"
        using "1.IH" s by simp
      then show ?thesis unfolding r by auto
    qed
  qed
qed

lemma replace_from_nonempty: "new \<noteq> [] \<Longrightarrow> s \<noteq> [] \<Longrightarrow> replace_from old new s \<noteq> []"
  by (cases s; cases "old \<noteq> [] \<and> take (length old) s = old")
     (auto simp: replace_from_match replace_from_step)

text \<open>A character that does not occur in \<open>old\<close> separates the replacement.\<close>

lemma replace_from_separator:
  assumes sep: "sep \<notin> set old" and old: "old \<noteq> []"
  shows "replace_from old new (a @ sep # b)
           = replace_from old new a @ sep # replace_from old new b"
proof (induction a rule: length_induct)
  case (1 a)
  show ?case
  proof (cases a)
    case Nil
    have "take (length old) (sep # b) \<noteq> old"
    proof
      assume "take (length old) (sep # b) = old"
      with old have "hd old = sep" by (cases old) auto
      with old sep show False by (cases old) auto
    qed
    then show ?thesis using Nil by (simp add: replace_from_step)
  next
    case a: (Cons c cs)
    show ?thesis
    proof (cases "take (length old) (a @ sep # b) = old")
      case True
      have le: "length old \<le> length a"
      proof (rule ccontr)
        assume "\<not> length old \<le> length a"
        then have "length a < length old" by simp
        then have "take (length old) (a @ sep # b) ! length a = sep"
          by (simp add: nth_append)
        with True have "old ! length a = sep" by simp
        with \<open>length a < length old\<close> sep show False by (metis nth_mem)
      qed
      with True have m: "take (length old) a = old" by simp
      from le have d: "drop (length old) (a @ sep # b) = drop (length old) a @ sep # b" by simp
      from old a have "length (drop (length old) a) < length a" by (cases old) simp_all
      then have ih: "replace_from old new (drop (length old) a @ sep # b)
          = replace_from old new (drop (length old) a) @ sep # replace_from old new b"
        using "1.IH" by blast
      have w: "replace_from old new (a @ sep # b)
          = new @ replace_from old new (drop (length old) (a @ sep # b))"
        using True old a by (simp add: replace_from_match)
      have p: "replace_from old new a = new @ replace_from old new (drop (length old) a)"
        using m old a by (simp add: replace_from_match)
      show ?thesis unfolding w d ih p by simp
    next
      case False
      have nm: "take (length old) a \<noteq> old"
      proof
        assume e: "take (length old) a = old"
        then have "length (take (length old) a) = length old" by simp
        then have "length old \<le> length a" by simp
        with e have "take (length old) (a @ sep # b) = old" by simp
        with False show False by simp
      qed
      have w: "replace_from old new (a @ sep # b) = c # replace_from old new (cs @ sep # b)"
        using False a by (simp add: replace_from_step)
      have ih: "replace_from old new (cs @ sep # b)
          = replace_from old new cs @ sep # replace_from old new b"
        using "1.IH" a by simp
      have p: "replace_from old new a = c # replace_from old new cs"
        using nm a by (simp add: replace_from_step)
      show ?thesis unfolding w ih p by simp
    qed
  qed
qed

lemma replace_join:
  assumes "sep \<notin> set old" and "old \<noteq> []"
  shows "replace old new (join [sep] xs) = join [sep] (map (replace old new) xs)"
proof (induction xs rule: induct_list012)
  case 1
  then show ?case using assms by (simp add: replace_def)
next
  case (2 x)
  then show ?case by simp
next
  case (3 x y ys)
  then show ?case using assms by (simp add: replace_def replace_from_separator)
qed

subsection \<open>The cancellation spellings\<close>

lemmas clear_eval = clear_of_def agree_def upt_rec [of 0] upt_rec [of 1] upt_rec [of 2]
  upt_rec [of 3] upt_rec [of 4] upt_rec [of 5] upt_rec [of 6]

lemma clear_huy: "clear_of [104, 7911, 121] [104, 117, 7927]"
  by (simp add: clear_eval)

lemma clear_Huy: "clear_of [72, 7911, 121] [72, 117, 7927]"
  by (simp add: clear_eval)

lemma clear_huy_Huy: "clear_of [104, 7911, 121] [72, 117, 7927]"
  by (simp add: clear_eval)

lemma cancellation_removes:
  "\<not> contains [104, 7911, 121] (normalize_cancellation_terms x)"
  "\<not> contains [72, 7911, 121] (normalize_cancellation_terms x)"
proof -
  show "\<not> contains [72, 7911, 121] (normalize_cancellation_terms x)"
    unfolding normalize_cancellation_terms_def by (rule replace_removes [OF clear_Huy]) simp
  show "\<not> contains [104, 7911, 121] (normalize_cancellation_terms x)"
  proof
    assume "contains [104, 7911, 121] (normalize_cancellation_terms x)"
    then have "contains [104, 7911, 121] (replace [104, 7911, 121] [104, 117, 7927] x)"
      unfolding normalize_cancellation_terms_def
      using replace_contains [OF clear_huy_Huy] by blast
    moreover have "\<not> contains [104, 7911, 121] (replace [104, 7911, 121] [104, 117, 7927] x)"
      by (rule replace_removes [OF clear_huy]) simp
    ultimately show False by simp
  qed
qed

lemma cancellation_absent:
  "\<not> contains [104, 7911, 121] x \<Longrightarrow> \<not> contains [72, 7911, 121] x \<Longrightarrow>
   normalize_cancellation_terms x = x"
  by (simp add: normalize_cancellation_terms_def replace_absent)

lemma cancellation_idem:
  "normalize_cancellation_terms (normalize_cancellation_terms x) = normalize_cancellation_terms x"
  by (rule cancellation_absent) (rule cancellation_removes)+

lemma cancellation_unchanged:
  assumes "7911 \<notin> set w"
  shows "normalize_cancellation_terms w = w"
proof (rule cancellation_absent)
  show "\<not> contains [104, 7911, 121] w"
  proof
    assume "contains [104, 7911, 121] w"
    then have "set [104, 7911, 121] \<subseteq> set w" by (intro contains_set) simp_all
    with assms show False by simp
  qed
  show "\<not> contains [72, 7911, 121] w"
  proof
    assume "contains [72, 7911, 121] w"
    then have "set [72, 7911, 121] \<subseteq> set w" by (intro contains_set) simp_all
    with assms show False by simp
  qed
qed

lemma cancellation_changed:
  assumes "7927 \<notin> set (normalize_cancellation_terms x)"
  shows "normalize_cancellation_terms x = x"
proof -
  let ?y = "replace [104, 7911, 121] [104, 117, 7927] x"
  have 2: "replace [72, 7911, 121] [72, 117, 7927] ?y = ?y"
  proof (rule ccontr)
    assume "replace [72, 7911, 121] [72, 117, 7927] ?y \<noteq> ?y"
    then have "replace_from [72, 7911, 121] [72, 117, 7927] ?y \<noteq> ?y"
      by (simp add: replace_def)
    then have "set [72, 117, 7927] \<subseteq> set (replace_from [72, 7911, 121] [72, 117, 7927] ?y)"
      by (rule replace_from_changed)
    then have "set [72, 117, 7927] \<subseteq> set (replace [72, 7911, 121] [72, 117, 7927] ?y)"
      by (simp add: replace_def)
    with assms show False by (simp add: normalize_cancellation_terms_def)
  qed
  have 1: "?y = x"
  proof (rule ccontr)
    assume "?y \<noteq> x"
    then have "replace_from [104, 7911, 121] [104, 117, 7927] x \<noteq> x"
      by (simp add: replace_def)
    then have "set [104, 117, 7927] \<subseteq> set (replace_from [104, 7911, 121] [104, 117, 7927] x)"
      by (rule replace_from_changed)
    then have "set [104, 117, 7927] \<subseteq> set ?y"
      by (simp add: replace_def)
    with assms 2 show False by (simp add: normalize_cancellation_terms_def)
  qed
  from 1 2 show ?thesis by (simp add: normalize_cancellation_terms_def)
qed

lemma cancellation_eq_iff:
  assumes "7911 \<notin> set w" and "7927 \<notin> set w"
  shows "normalize_cancellation_terms x = w \<longleftrightarrow> x = w"
proof
  assume e: "normalize_cancellation_terms x = w"
  with assms(2) have "normalize_cancellation_terms x = x"
    by (intro cancellation_changed) simp
  with e show "x = w" by simp
next
  assume "x = w"
  with assms(1) show "normalize_cancellation_terms x = w"
    by (simp add: cancellation_unchanged)
qed

lemma cancellation_join:
  "normalize_cancellation_terms (join [32] xs)
     = join [32] (map normalize_cancellation_terms xs)"
proof -
  have "normalize_cancellation_terms (join [32] xs)
      = replace [72, 7911, 121] [72, 117, 7927]
          (join [32] (map (replace [104, 7911, 121] [104, 117, 7927]) xs))"
    by (simp add: normalize_cancellation_terms_def replace_join)
  also have "\<dots> = join [32] (map (replace [72, 7911, 121] [72, 117, 7927])
                        (map (replace [104, 7911, 121] [104, 117, 7927]) xs))"
    by (rule replace_join) simp_all
  also have "\<dots> = join [32] (map normalize_cancellation_terms xs)"
    by (simp add: normalize_cancellation_terms_def [abs_def] comp_def)
  finally show ?thesis .
qed

lemma cancellation_token:
  assumes "is_token x"
  shows "is_token (normalize_cancellation_terms x)"
proof -
  let ?y = "replace_from [104, 7911, 121] [104, 117, 7927] x"
  let ?z = "replace_from [72, 7911, 121] [72, 117, 7927] ?y"
  have z: "normalize_cancellation_terms x = ?z"
    by (simp add: normalize_cancellation_terms_def replace_def)
  from assms have "x \<noteq> []" by (simp add: is_token_def)
  then have "?y \<noteq> []" by (simp add: replace_from_nonempty)
  then have ne: "?z \<noteq> []" by (simp add: replace_from_nonempty)
  have "set ?z \<subseteq> set ?y \<union> set [72, 117, 7927]" by (rule replace_from_set)
  moreover have "set ?y \<subseteq> set x \<union> set [104, 117, 7927]" by (rule replace_from_set)
  ultimately have "set ?z \<subseteq> set x \<union> {72, 104, 117, 7927}" by auto
  moreover have "\<forall>c \<in> {72, 104, 117, 7927}. \<not> is_space c" by (simp add: is_space_def)
  moreover from assms have "\<forall>c \<in> set x. \<not> is_space c" by (simp add: is_token_def)
  ultimately have "\<forall>c \<in> set ?z. \<not> is_space c" by blast
  with ne show ?thesis unfolding z is_token_def by simp
qed

subsection \<open>Index and suffix\<close>

lemma number_run_Cons:
  "number_run (x # xs) = (if x \<in> NUMBER_TOKENS then x # number_run xs else [])"
  by (simp add: number_run_def)

lemma after_run_Cons:
  "after_run (x # xs) = (if x \<in> NUMBER_TOKENS then after_run xs else x # xs)"
  by (simp add: after_run_def)

lemma scan_run_number_run:
  "i \<le> length tokens \<Longrightarrow> scan_run tokens i = i + length (number_run (drop i tokens))"
proof (induction tokens i rule: scan_run.induct)
  case (1 tokens j)
  show ?case
  proof (cases "j < length tokens")
    case False
    then have "scan_run tokens j = j" by (simp add: scan_run.simps [of tokens j])
    with False "1.prems" show ?thesis by (simp add: number_run_def)
  next
    case lt: True
    then have d: "drop j tokens = tokens ! j # drop (Suc j) tokens"
      by (simp add: Cons_nth_drop_Suc)
    show ?thesis
    proof (cases "tokens ! j \<in> NUMBER_TOKENS")
      case True
      with lt "1.IH" have "scan_run tokens (j + 1) = j + 1 + length (number_run (drop (j + 1) tokens))"
        by simp
      with lt True show ?thesis
        by (simp add: scan_run.simps [of tokens j] d number_run_Cons)
    next
      case False
      then show ?thesis by (simp add: scan_run.simps [of tokens j] d number_run_Cons)
    qed
  qed
qed

lemma take_number_run:
  "i \<le> length tokens \<Longrightarrow>
   take (scan_run tokens i - i) (drop i tokens) = number_run (drop i tokens)"
  by (simp add: scan_run_number_run number_run_def takeWhile_eq_take [symmetric])

lemma drop_after_run:
  "i \<le> length tokens \<Longrightarrow> drop (scan_run tokens i) tokens = after_run (drop i tokens)"
proof -
  assume "i \<le> length tokens"
  then have "drop (scan_run tokens i) tokens
      = drop (length (number_run (drop i tokens))) (drop i tokens)"
    by (simp add: scan_run_number_run add.commute)
  then show ?thesis by (simp add: after_run_def number_run_def dropWhile_eq_drop)
qed

lemma next_token_after_run:
  assumes "i \<le> length tokens"
  shows "(scan_run tokens i < length tokens) = (after_run (drop i tokens) \<noteq> [])"
    and "scan_run tokens i < length tokens \<Longrightarrow>
         tokens ! scan_run tokens i = hd (after_run (drop i tokens))"
proof -
  from assms have d: "drop (scan_run tokens i) tokens = after_run (drop i tokens)"
    by (rule drop_after_run)
  show "(scan_run tokens i < length tokens) = (after_run (drop i tokens) \<noteq> [])"
    unfolding d [symmetric] by auto
  show "scan_run tokens i < length tokens \<Longrightarrow>
        tokens ! scan_run tokens i = hd (after_run (drop i tokens))"
    unfolding d [symmetric] by (simp add: hd_drop_conv_nth)
qed

lemma followers_facts:
  "[] \<notin> NUMBER_FOLLOWERS" "w_phan \<in> NUMBER_FOLLOWERS" "w_ruoi \<in> NUMBER_FOLLOWERS"
  "w_phan \<noteq> []" "w_ruoi \<noteq> []"
  by (simp_all add: NUMBER_FOLLOWERS_def word_defs)

lemma should_convert_iff:
  "j \<le> length tokens \<Longrightarrow>
   should_convert tokens j number_value \<longleftrightarrow>
     (j < length tokens \<and> tokens ! j \<in> NUMBER_FOLLOWERS)
     \<or> (j = length tokens \<and> (case number_value of None \<Rightarrow> False | Some v \<Rightarrow> v \<ge> 10))"
  using followers_facts
  by (cases number_value) (auto simp: should_convert_def Let_def)

lemma run_converts_head:
  assumes "i < length tokens"
  shows "run_converts tokens i \<longleftrightarrow> head_converts (prev_at tokens i) (drop i tokens)"
proof -
  from assms have i: "i \<le> length tokens" by simp
  from assms have d: "drop i tokens \<noteq> []" "hd (drop i tokens) = tokens ! i"
    by (simp_all add: hd_drop_conv_nth)
  have j: "scan_run tokens i \<le> length tokens" using i by (rule scan_run_le_length)
  have e: "(scan_run tokens i = length tokens) = (after_run (drop i tokens) = [])"
    using next_token_after_run(1) [OF i] j by auto
  show ?thesis
    unfolding run_converts_def converts_def head_converts_def Let_def
      take_number_run [OF i] should_convert_iff [OF j] prev_at_def d
    using next_token_after_run [OF i] e assms by auto
qed

lemma head_converts_other: "x \<notin> NUMBER_TOKENS \<Longrightarrow> \<not> head_converts p (x # xs)"
  by (simp add: head_converts_def)

lemma suffix_loop_prev:
  "xs = [] \<or> hd xs \<notin> NUMBER_TOKENS \<Longrightarrow> suffix_loop p xs = suffix_loop q xs"
  by (cases xs) (simp_all add: suffix_loop.simps(2) head_converts_other)

lemma after_run_head: "after_run xs = [] \<or> hd (after_run xs) \<notin> NUMBER_TOKENS"
  unfolding after_run_def using hd_dropWhile [of "\<lambda>t. t \<in> NUMBER_TOKENS" xs] by auto

lemma normalize_loop_suffix:
  "i \<le> length tokens \<Longrightarrow>
   normalize_loop tokens i acc = acc @ suffix_loop (prev_at tokens i) (drop i tokens)"
proof (induction tokens i acc rule: normalize_loop.induct)
  case (1 tokens i acc)
  show ?case
  proof (cases "i < length tokens")
    case False
    with "1.prems" show ?thesis by (simp add: normalize_loop_done)
  next
    case lt: True
    then have d: "drop i tokens = tokens ! i # drop (Suc i) tokens"
      by (simp add: Cons_nth_drop_Suc)
    from lt have i: "i \<le> length tokens" by simp
    show ?thesis
    proof (cases "run_converts tokens i")
      case True
      then have c: "tokens ! i \<in> NUMBER_TOKENS \<and> converts tokens i (scan_run tokens i)"
        by (simp add: run_converts_def)
      have j: "scan_run tokens i \<le> length tokens" using i by (rule scan_run_le_length)
      from True have h: "head_converts (prev_at tokens i) (tokens ! i # drop (Suc i) tokens)"
        using run_converts_head [OF lt] d by simp
      have "normalize_loop tokens i acc
          = normalize_loop tokens (scan_run tokens i) (acc @ [run_value tokens i])"
        using lt True by (rule normalize_loop_convert)
      also have "\<dots> = (acc @ [run_value tokens i])
            @ suffix_loop (prev_at tokens (scan_run tokens i)) (drop (scan_run tokens i) tokens)"
        using "1.IH"(1) [OF lt c j] by (simp add: run_value_def)
      also have "suffix_loop (prev_at tokens (scan_run tokens i)) (drop (scan_run tokens i) tokens)
          = suffix_loop (last (number_run (drop i tokens))) (after_run (drop i tokens))"
        unfolding drop_after_run [OF i] by (rule suffix_loop_prev) (rule after_run_head)
      finally show ?thesis
        using h by (simp add: d suffix_loop.simps(2) run_value_def take_number_run [OF i, unfolded d])
    next
      case False
      then have c: "\<not> (tokens ! i \<in> NUMBER_TOKENS \<and> converts tokens i (scan_run tokens i))"
        by (simp add: run_converts_def)
      from False have h: "\<not> head_converts (prev_at tokens i) (tokens ! i # drop (Suc i) tokens)"
        using run_converts_head [OF lt] d by simp
      have "normalize_loop tokens i acc = normalize_loop tokens (i + 1) (acc @ [tokens ! i])"
        using lt False by (rule normalize_loop_copy)
      also have "\<dots> = (acc @ [tokens ! i]) @ suffix_loop (prev_at tokens (i + 1)) (drop (i + 1) tokens)"
        using "1.IH"(2) [OF lt c] lt by simp
      finally show ?thesis
        using h by (simp add: d suffix_loop.simps(2) prev_at_def)
    qed
  qed
qed

subsection \<open>The digits are no number word\<close>

lemma str_int_small: "\<forall>c \<in> set (str_int i). c < 97"
  using str_nat_digits [of "nat i"] str_nat_digits [of "nat (- i)"]
  by (auto simp: str_int_def)

lemma number_words_letters:
  "w \<in> NUMBER_TOKENS \<union> NUMBER_FOLLOWERS \<Longrightarrow> \<exists>c \<in> set w. 97 \<le> c"
  by (auto simp: NUMBER_TOKENS_def NUMBER_FOLLOWERS_def NUMBER_UNITS_items_def word_defs)

lemma str_int_other: "str_int i \<notin> NUMBER_TOKENS" "str_int i \<notin> NUMBER_FOLLOWERS"
  using number_words_letters [of "str_int i"] str_int_small [of i] by fastforce+

subsection \<open>The leading run of the output\<close>

lemma head_converts_context:
  "head_converts p xs \<longleftrightarrow>
     xs \<noteq> [] \<and> hd xs \<in> NUMBER_TOKENS
     \<and> words_to_number (number_run xs) \<noteq> None
     \<and> (next_follows xs
         \<or> at_end xs \<and> (case words_to_number (number_run xs) of None \<Rightarrow> False | Some v \<Rightarrow> v \<ge> 10))
     \<and> \<not> (words_to_number (number_run xs) = Some 0 \<and> number_run xs = [w_khong])
     \<and> \<not> (number_run xs = [w_tram] \<and> p = w_phan)"
  by (simp add: head_converts_def Let_def at_end_def next_follows_def)

lemma context_Cons:
  "x \<in> NUMBER_TOKENS \<Longrightarrow> at_end (x # xs) = at_end xs"
  "x \<in> NUMBER_TOKENS \<Longrightarrow> next_follows (x # xs) = next_follows xs"
  "x \<notin> NUMBER_TOKENS \<Longrightarrow> \<not> at_end (x # xs)"
  "x \<notin> NUMBER_TOKENS \<Longrightarrow> next_follows (x # xs) = (x \<in> NUMBER_FOLLOWERS)"
  by (simp_all add: at_end_def next_follows_def after_run_Cons)

lemma leading_run:
  "number_run (suffix_loop p xs) = number_run xs
     \<and> at_end (suffix_loop p xs) = at_end xs
     \<and> next_follows (suffix_loop p xs) = next_follows xs
   \<or> \<not> at_end (suffix_loop p xs) \<and> \<not> next_follows (suffix_loop p xs)"
proof (induction p xs rule: suffix_loop.induct)
  case (1 p)
  show ?case by simp
next
  case (2 p x xs)
  show ?case
  proof (cases "head_converts p (x # xs)")
    case True
    then show ?thesis
      by (simp add: suffix_loop.simps(2) context_Cons str_int_other)
  next
    case False
    then have s: "suffix_loop p (x # xs) = x # suffix_loop x xs"
      by (simp add: suffix_loop.simps(2))
    show ?thesis
    proof (cases "x \<in> NUMBER_TOKENS")
      case True
      with "2.IH"(2) [OF False] show ?thesis
        unfolding s by (simp add: context_Cons number_run_Cons)
    next
      case False
      then show ?thesis unfolding s by (simp add: context_Cons number_run_Cons)
    qed
  qed
qed

lemma suffix_loop_stable:
  "p = q \<or> xs = [] \<or> hd xs \<notin> NUMBER_TOKENS \<Longrightarrow> stable q (suffix_loop p xs)"
proof (induction p xs arbitrary: q rule: suffix_loop.induct)
  case (1 p)
  show ?case by simp
next
  case (2 p x xs)
  show ?case
  proof (cases "head_converts p (x # xs)")
    case True
    have "stable (str_int (the (words_to_number (number_run (x # xs)))))
            (suffix_loop (last (number_run (x # xs))) (after_run (x # xs)))"
      using True after_run_head [of "x # xs"] by (intro "2.IH"(1)) auto
    with True show ?thesis
      by (simp add: suffix_loop.simps(2) head_converts_other str_int_other)
  next
    case False
    then have s: "suffix_loop p (x # xs) = x # suffix_loop x xs"
      by (simp add: suffix_loop.simps(2))
    have t: "stable x (suffix_loop x xs)" using False by (intro "2.IH"(2)) simp_all
    have "\<not> head_converts q (x # suffix_loop x xs)"
    proof (cases "x \<in> NUMBER_TOKENS")
      case False
      then show ?thesis by (rule head_converts_other)
    next
      case True
      with "2.prems" have q: "q = p" by simp
      from leading_run [of p "x # xs"] False s show ?thesis
        unfolding q head_converts_context [of p "x # xs"] head_converts_context [of p "x # suffix_loop x xs"]
        by auto
    qed
    with t show ?thesis unfolding s by simp
  qed
qed

lemma stable_nth:
  "stable p ys \<Longrightarrow> k < length ys \<Longrightarrow>
   \<not> head_converts (if k = 0 then p else ys ! (k - 1)) (drop k ys)"
proof (induction ys arbitrary: p k)
  case Nil
  then show ?case by simp
next
  case (Cons y ys)
  show ?case
  proof (cases k)
    case 0
    with Cons.prems show ?thesis by simp
  next
    case (Suc n)
    with Cons.prems have "\<not> head_converts (if n = 0 then y else ys ! (n - 1)) (drop n ys)"
      by (intro Cons.IH) simp_all
    with Suc show ?thesis by (cases n) simp_all
  qed
qed

lemma stable_run_converts:
  assumes "stable [] ys" and "k < length ys"
  shows "\<not> run_converts ys k"
  using stable_nth [OF assms] run_converts_head [OF assms(2)]
  by (cases k) (simp_all add: prev_at_def)

subsection \<open>The cancellation pass keeps the number words\<close>

lemma number_words_plain:
  "w \<in> NUMBER_TOKENS \<union> NUMBER_FOLLOWERS \<Longrightarrow> 7911 \<notin> set w \<and> 7927 \<notin> set w"
  by (auto simp: NUMBER_TOKENS_def NUMBER_FOLLOWERS_def NUMBER_UNITS_items_def word_defs)

lemma cancellation_word:
  "w \<in> NUMBER_TOKENS \<union> NUMBER_FOLLOWERS \<Longrightarrow> normalize_cancellation_terms x = w \<longleftrightarrow> x = w"
  using number_words_plain [of w] by (intro cancellation_eq_iff) simp_all

lemma cancellation_member:
  "normalize_cancellation_terms x \<in> NUMBER_TOKENS \<longleftrightarrow> x \<in> NUMBER_TOKENS"
  "normalize_cancellation_terms x \<in> NUMBER_FOLLOWERS \<longleftrightarrow> x \<in> NUMBER_FOLLOWERS"
  using cancellation_word [of "normalize_cancellation_terms x" x] cancellation_word [of x x]
  by auto

lemma cancellation_number_token:
  "x \<in> NUMBER_TOKENS \<Longrightarrow> normalize_cancellation_terms x = x"
  using cancellation_word [of x x] by simp

lemma cancellation_number_run:
  "number_run (map normalize_cancellation_terms xs) = number_run xs"
  by (induction xs)
     (simp_all add: number_run_Cons cancellation_member cancellation_number_token
        number_run_def [of "[]"])

lemma cancellation_after_run:
  "after_run (map normalize_cancellation_terms xs) = map normalize_cancellation_terms (after_run xs)"
  by (induction xs) (simp_all add: after_run_Cons cancellation_member after_run_def [of "[]"])

lemma cancellation_head_converts:
  assumes "p' = w_phan \<longleftrightarrow> p = w_phan"
  shows "head_converts p' (map normalize_cancellation_terms xs) \<longleftrightarrow> head_converts p xs"
proof (cases xs)
  case Nil
  then show ?thesis by (simp add: head_converts_def)
next
  case (Cons y ys)
  have h: "hd (map normalize_cancellation_terms (after_run xs)) \<in> NUMBER_FOLLOWERS
      \<longleftrightarrow> hd (after_run xs) \<in> NUMBER_FOLLOWERS" if "after_run xs \<noteq> []"
    using that by (simp add: hd_map cancellation_member)
  show ?thesis
    unfolding head_converts_def Let_def cancellation_number_run cancellation_after_run
    using assms h Cons by (auto simp: cancellation_member)
qed

lemma cancellation_stable:
  "(p' = w_phan \<longleftrightarrow> p = w_phan) \<Longrightarrow>
   stable p' (map normalize_cancellation_terms ys) \<longleftrightarrow> stable p ys"
proof (induction ys arbitrary: p p')
  case Nil
  show ?case by simp
next
  case (Cons y ys)
  have "stable (normalize_cancellation_terms y) (map normalize_cancellation_terms ys) \<longleftrightarrow> stable y ys"
    using followers_facts(2) by (intro Cons.IH cancellation_word) simp
  moreover have "head_converts p' (map normalize_cancellation_terms (y # ys))
      \<longleftrightarrow> head_converts p (y # ys)"
    using Cons.prems by (rule cancellation_head_converts)
  ultimately show ?case by simp
qed

subsection \<open>The output of the number pass and of the normalizer\<close>

lemma split_ws_empty: "split_ws s = [] \<Longrightarrow> \<forall>c \<in> set s. is_space c"
proof (induction s)
  case Nil
  show ?case by simp
next
  case (Cons c s)
  show ?case
  proof (cases "is_space c")
    case True
    with Cons show ?thesis by (simp add: split_ws_space)
  next
    case False
    with Cons.prems show ?thesis by (simp add: split_ws_nonspace)
  qed
qed

lemma loop_output_stable: "stable [] (normalize_loop tokens 0 [])"
proof -
  have "normalize_loop tokens 0 [] = suffix_loop [] tokens"
    using normalize_loop_suffix [of 0 tokens "[]"] by (simp add: prev_at_def)
  then show ?thesis by (simp add: suffix_loop_stable)
qed

lemma numbers_idempotent:
  "normalize_vietnamese_numbers (normalize_vietnamese_numbers t) = normalize_vietnamese_numbers t"
proof (cases "split_ws t = []")
  case True
  then show ?thesis by (simp add: normalize_vietnamese_numbers_def)
next
  case False
  let ?L = "normalize_loop (split_ws t) 0 []"
  have n: "normalize_vietnamese_numbers t = join [32] ?L"
    using False by (simp add: normalize_vietnamese_numbers_def)
  have "\<forall>x \<in> set ?L. is_token x"
    by (rule normalize_loop_tokens) (simp_all add: split_ws_tokens)
  then have s: "split_ws (join [32] ?L) = ?L" by (rule split_ws_join)
  have "\<forall>k < length ?L. \<not> run_converts ?L k"
    using loop_output_stable by (simp add: stable_run_converts)
  with s show ?thesis unfolding n by (intro numbers_quiescent) simp
qed

lemma cancelled_numbers_settled:
  "split_ws (normalize_cancellation_terms (normalize_vietnamese_numbers u)) = [] \<or>
   normalize_cancellation_terms (normalize_vietnamese_numbers u)
     = join [32] (split_ws (normalize_cancellation_terms (normalize_vietnamese_numbers u)))
   \<and> (\<forall>k < length (split_ws (normalize_cancellation_terms (normalize_vietnamese_numbers u))).
        \<not> run_converts (split_ws (normalize_cancellation_terms (normalize_vietnamese_numbers u))) k)"
proof (cases "split_ws u = []")
  case True
  then have n: "normalize_vietnamese_numbers u = u"
    by (simp add: normalize_vietnamese_numbers_def)
  from True have "\<forall>c \<in> set u. is_space c" by (rule split_ws_empty)
  moreover have "\<not> is_space 7911" by (simp add: is_space_def)
  ultimately have "7911 \<notin> set u" by blast
  then have "normalize_cancellation_terms u = u" by (rule cancellation_unchanged)
  with n True show ?thesis by simp
next
  case False
  let ?L = "normalize_loop (split_ws u) 0 []"
  let ?M = "map normalize_cancellation_terms ?L"
  have n: "normalize_vietnamese_numbers u = join [32] ?L"
    using False by (simp add: normalize_vietnamese_numbers_def)
  have c: "normalize_cancellation_terms (normalize_vietnamese_numbers u) = join [32] ?M"
    unfolding n by (rule cancellation_join)
  have "\<forall>x \<in> set ?L. is_token x"
    by (rule normalize_loop_tokens) (simp_all add: split_ws_tokens)
  then have "\<forall>x \<in> set ?M. is_token x" by (simp add: cancellation_token)
  then have s: "split_ws (join [32] ?M) = ?M" by (rule split_ws_join)
  have "stable [] ?M"
    using loop_output_stable [of "split_ws u"] cancellation_stable [of "[]" "[]" ?L] by simp
  then have "\<forall>k < length ?M. \<not> run_converts ?M k"
    by (simp add: stable_run_converts)
  with s show ?thesis unfolding c by simp
qed

lemma transcript_settled:
  assumes "\<forall>p \<in> set literal_patterns. \<not> contains p (normalize_vietnamese_transcript s)"
  shows "quiescent (normalize_vietnamese_transcript s)"
proof -
  obtain u where u: "normalize_vietnamese_transcript s
      = normalize_cancellation_terms (normalize_vietnamese_numbers u)"
    by (simp add: normalize_vietnamese_transcript_def Let_def)
  show ?thesis
    unfolding quiescent_def
    using assms cancelled_numbers_settled [of u] cancellation_removes
    unfolding u by blast
qed

subsection \<open>The literal spellings after the replacements\<close>

lemma spellings_clear:
  "\<forall>p \<in> set literal_patterns. clear_of p [116, 118]"
  "\<forall>p \<in> set literal_patterns. clear_of p [103, 97, 114, 97]"
  "\<forall>p \<in> set literal_patterns. clear_of p [104, 117, 7927]"
  "\<forall>p \<in> set literal_patterns. clear_of p [72, 117, 7927]"
  by (simp_all add: literal_patterns_def ascii_def clear_eval)

lemma replace_keeps_absent:
  "clear_of q new \<Longrightarrow> old \<noteq> [] \<Longrightarrow> \<not> contains q s \<Longrightarrow> \<not> contains q (replace old new s)"
  using replace_contains by blast

lemma transcript_passes:
  "normalize_vietnamese_transcript s
     = normalize_cancellation_terms (normalize_vietnamese_numbers (literal_replacements s))"
  by (simp add: normalize_vietnamese_transcript_def literal_replacements_def Let_def)

lemma literal_replacements_remove:
  assumes "p \<in> set literal_patterns"
  shows "\<not> contains p (literal_replacements s)"
proof -
  have c: "clear_of p [116, 118]" "clear_of p [103, 97, 114, 97]"
    using assms spellings_clear by blast+
  let ?s1 = "replace [116, 105, 118, 105] [116, 118] s"
  let ?s2 = "replace [116, 105, 32, 118, 105] [116, 118] ?s1"
  let ?s3 = "replace [116, 105, 45, 118, 105] [116, 118] ?s2"
  let ?s4 = "replace [116, 105, 46, 32, 118, 105] [116, 118] ?s3"
  let ?s5 = "replace [103, 97, 32, 114, 97] [103, 97, 114, 97] ?s4"
  from assms consider "p = [116, 105, 118, 105]" | "p = [116, 105, 32, 118, 105]"
    | "p = [116, 105, 45, 118, 105]" | "p = [116, 105, 46, 32, 118, 105]"
    | "p = [103, 97, 32, 114, 97]"
    by (auto simp: literal_patterns_def ascii_def)
  then have "\<not> contains p ?s5"
  proof cases
    case 1
    have "\<not> contains p ?s1" unfolding 1 by (rule replace_removes [OF c(1) [unfolded 1]]) simp
    then have "\<not> contains p ?s2" by (rule replace_keeps_absent [OF c(1), rotated]) simp
    then have "\<not> contains p ?s3" by (rule replace_keeps_absent [OF c(1), rotated]) simp
    then have "\<not> contains p ?s4" by (rule replace_keeps_absent [OF c(1), rotated]) simp
    then show ?thesis by (rule replace_keeps_absent [OF c(2), rotated]) simp
  next
    case 2
    have "\<not> contains p ?s2" unfolding 2 by (rule replace_removes [OF c(1) [unfolded 2]]) simp
    then have "\<not> contains p ?s3" by (rule replace_keeps_absent [OF c(1), rotated]) simp
    then have "\<not> contains p ?s4" by (rule replace_keeps_absent [OF c(1), rotated]) simp
    then show ?thesis by (rule replace_keeps_absent [OF c(2), rotated]) simp
  next
    case 3
    have "\<not> contains p ?s3" unfolding 3 by (rule replace_removes [OF c(1) [unfolded 3]]) simp
    then have "\<not> contains p ?s4" by (rule replace_keeps_absent [OF c(1), rotated]) simp
    then show ?thesis by (rule replace_keeps_absent [OF c(2), rotated]) simp
  next
    case 4
    have "\<not> contains p ?s4" unfolding 4 by (rule replace_removes [OF c(1) [unfolded 4]]) simp
    then show ?thesis by (rule replace_keeps_absent [OF c(2), rotated]) simp
  next
    case 5
    show ?thesis unfolding 5 by (rule replace_removes [OF c(2) [unfolded 5]]) simp
  qed
  then show ?thesis by (simp add: literal_replacements_def)
qed

lemma cancellation_keeps_absent:
  assumes "p \<in> set literal_patterns" and "\<not> contains p s"
  shows "\<not> contains p (normalize_cancellation_terms s)"
proof -
  have c: "clear_of p [104, 117, 7927]" "clear_of p [72, 117, 7927]"
    using assms(1) spellings_clear by blast+
  from assms(2) have "\<not> contains p (replace [104, 7911, 121] [104, 117, 7927] s)"
    by (rule replace_keeps_absent [OF c(1), rotated]) simp
  then show ?thesis
    unfolding normalize_cancellation_terms_def
    by (rule replace_keeps_absent [OF c(2), rotated]) simp
qed

subsection \<open>Texts with single spaces\<close>

lemma hd_replace_from:
  "s \<noteq> [] \<Longrightarrow> new \<noteq> [] \<Longrightarrow> hd (replace_from old new s) = hd s \<or> hd (replace_from old new s) = hd new"
  by (cases s; cases "old \<noteq> [] \<and> take (length old) s = old")
     (auto simp: replace_from_match replace_from_step)

lemma last_replace_from:
  "s \<noteq> [] \<Longrightarrow> new \<noteq> [] \<Longrightarrow>
   last (replace_from old new s) = last s \<or> last (replace_from old new s) = last new"
proof (induction s rule: length_induct)
  case (1 s)
  from "1.prems"(1) obtain c cs where s: "s = c # cs" by (cases s) auto
  show ?case
  proof (cases "old \<noteq> [] \<and> take (length old) s = old")
    case True
    then have r: "replace_from old new s = new @ replace_from old new (drop (length old) s)"
      unfolding s by (simp add: replace_from_match)
    show ?thesis
    proof (cases "drop (length old) s = []")
      case True
      with r "1.prems"(2) show ?thesis by simp
    next
      case False
      have "length (drop (length old) s) < length s" using True s by (cases old) auto
      with "1.IH" False "1.prems"(2)
      have "last (replace_from old new (drop (length old) s)) = last (drop (length old) s)
          \<or> last (replace_from old new (drop (length old) s)) = last new"
        by blast
      moreover have "replace_from old new (drop (length old) s) \<noteq> []"
        using False "1.prems"(2) by (simp add: replace_from_nonempty)
      moreover have "last (drop (length old) s) = last s" using False by simp
      ultimately show ?thesis unfolding r by simp
    qed
  next
    case False
    then have r: "replace_from old new (c # cs) = c # replace_from old new cs"
      unfolding s by (simp add: replace_from_step)
    show ?thesis
    proof (cases "cs = []")
      case True
      with r show ?thesis unfolding s by simp
    next
      case ne: False
      with "1.IH" s "1.prems"(2)
      have "last (replace_from old new cs) = last cs \<or> last (replace_from old new cs) = last new"
        by simp
      moreover have "replace_from old new cs \<noteq> []"
        using ne "1.prems"(2) by (simp add: replace_from_nonempty)
      ultimately show ?thesis unfolding s r using ne by simp
    qed
  qed
qed

lemma replace_single_spaced:
  assumes s: "single_spaced s" and old: "old \<noteq> []" and new: "new \<noteq> []"
    and sp: "\<forall>c \<in> set new. \<not> is_space c" and cl: "clear_of [32, 32] new"
  shows "single_spaced (replace old new s)"
proof (cases "s = []")
  case True
  then show ?thesis using old by (simp add: replace_def single_spaced_def)
next
  case False
  have sp32: "is_space 32" by (simp add: is_space_def)
  have "hd new \<in> set new" "last new \<in> set new" using new by simp_all
  with sp sp32 have hl: "hd new \<noteq> 32" "last new \<noteq> 32" by metis+
  from s False have hs: "hd s \<noteq> 32" "last s \<noteq> 32" by (simp_all add: single_spaced_def)
  have 1: "\<forall>c \<in> set (replace old new s). is_space c \<longrightarrow> c = 32"
    using replace_from_set [of old new s] s sp old by (auto simp: replace_def single_spaced_def)
  have 2: "\<not> contains [32, 32] (replace old new s)"
    using s by (intro replace_keeps_absent [OF cl old]) (simp add: single_spaced_def)
  have 3: "hd (replace old new s) \<noteq> 32"
    using hd_replace_from [OF False new, of old] hl hs old by (auto simp: replace_def)
  have 4: "last (replace old new s) \<noteq> 32"
    using last_replace_from [OF False new, of old] hl hs old by (auto simp: replace_def)
  from 1 2 3 4 show ?thesis unfolding single_spaced_def by blast
qed

lemma literal_replacements_single_spaced:
  assumes "single_spaced s"
  shows "single_spaced (literal_replacements s)"
proof -
  have c: "clear_of [32, 32] [116, 118]" "clear_of [32, 32] [103, 97, 114, 97]"
    by (simp_all add: clear_eval)
  have n: "\<forall>c \<in> set [116, 118]. \<not> is_space c" "\<forall>c \<in> set [103, 97, 114, 97]. \<not> is_space c"
    by (simp_all add: is_space_def)
  note r = replace_single_spaced [OF _ _ _ n(1) c(1)]
  from assms have "single_spaced (replace [116, 105, 118, 105] [116, 118] s)"
    by (rule r) simp_all
  then have "single_spaced (replace [116, 105, 32, 118, 105] [116, 118]
      (replace [116, 105, 118, 105] [116, 118] s))"
    by (rule r) simp_all
  then have "single_spaced (replace [116, 105, 45, 118, 105] [116, 118]
      (replace [116, 105, 32, 118, 105] [116, 118]
      (replace [116, 105, 118, 105] [116, 118] s)))"
    by (rule r) simp_all
  then have "single_spaced (replace [116, 105, 46, 32, 118, 105] [116, 118]
      (replace [116, 105, 45, 118, 105] [116, 118]
      (replace [116, 105, 32, 118, 105] [116, 118]
      (replace [116, 105, 118, 105] [116, 118] s))))"
    by (rule r) simp_all
  then show ?thesis
    unfolding literal_replacements_def
    by (rule replace_single_spaced [OF _ _ _ n(2) c(2)]) simp_all
qed

lemma join_Cons: "ys \<noteq> [] \<Longrightarrow> join [32] (x # ys) = x @ 32 # join [32] ys"
  by (cases ys) simp_all

lemma join_empty: "\<forall>t \<in> set ts. t \<noteq> [] \<Longrightarrow> join [32] ts = [] \<longleftrightarrow> ts = []"
  by (induction ts rule: induct_list012) simp_all

lemma single_spaced_join:
  "single_spaced u \<Longrightarrow> u = join [32] (split_ws u)"
proof (induction u rule: length_induct)
  case (1 u)
  show ?case
  proof (cases u)
    case Nil
    then show ?thesis by simp
  next
    case (Cons c r)
    have sp32: "is_space 32" by (simp add: is_space_def)
    from "1.prems" Cons have c: "\<not> is_space c" by (auto simp: single_spaced_def)
    let ?t = "c # takeWhile (\<lambda>x. \<not> is_space x) r"
    let ?d = "dropWhile (\<lambda>x. \<not> is_space x) r"
    have u: "u = ?t @ ?d" using Cons by simp
    have w: "split_ws u = ?t # split_ws ?d" unfolding Cons using c by (rule split_ws_nonspace)
    show ?thesis
    proof (cases "?d = []")
      case True
      with w u show ?thesis by simp
    next
      case False
      then obtain e d' where d: "?d = e # d'" by (cases ?d) auto
      have "is_space (hd ?d)" using False hd_dropWhile [of "\<lambda>x. \<not> is_space x" r] by blast
      then have se: "is_space e" using d by simp
      have "e \<in> set u" using u d by (metis in_set_conv_decomp)
      with se "1.prems" have e: "e = 32" by (simp add: single_spaced_def)
      have ud: "u = ?t @ 32 # d'" using u d e by simp
      from "1.prems" have lu: "last u \<noteq> 32" using Cons by (simp add: single_spaced_def)
      have ne: "d' \<noteq> []"
      proof
        assume "d' = []"
        with ud have "last u = 32" by (metis last_snoc append_Cons append_Nil)
        with lu show False by simp
      qed
      have dd: "d' = drop (Suc (length ?t)) u"
        by (subst ud) simp
      have x3: "hd d' \<noteq> 32"
      proof
        assume "hd d' = 32"
        with ne have "d' = 32 # tl d'" by (cases d') simp_all
        then have "drop (length ?t) u = 32 # 32 # tl d'" using ud by (metis append_eq_conv_conj)
        then have "contains [32, 32] (drop (length ?t) u)" by simp
        then have "contains [32, 32] u" by (rule contains_drop)
        with "1.prems" show False by (simp add: single_spaced_def)
      qed
      have x1: "\<forall>c \<in> set d'. is_space c \<longrightarrow> c = 32"
      proof -
        have "set d' \<subseteq> set u" by (subst ud) auto
        with "1.prems" show ?thesis by (auto simp: single_spaced_def)
      qed
      have x2: "\<not> contains [32, 32] d'"
      proof
        assume "contains [32, 32] d'"
        then have "contains [32, 32] u" unfolding dd by (rule contains_drop)
        with "1.prems" show False by (simp add: single_spaced_def)
      qed
      have x4: "last d' \<noteq> 32"
      proof -
        have "last u = last d'" using ne by (subst ud) simp
        with lu show ?thesis by simp
      qed
      from x1 x2 x3 x4 have sd: "single_spaced d'" by (simp add: single_spaced_def)
      have "length d' < length u" by (subst ud) simp
      with "1.IH" sd have ih: "d' = join [32] (split_ws d')" by blast
      with ne have ws: "split_ws d' \<noteq> []" by auto
      have "split_ws ?d = split_ws d'" unfolding d e using sp32 by (rule split_ws_space)
      with w have "join [32] (split_ws u) = ?t @ 32 # join [32] (split_ws d')"
        using ws by (simp add: join_Cons)
      with ih ud show ?thesis by simp
    qed
  qed
qed

subsection \<open>The number pass makes no literal spelling from single spaces\<close>

lemma contains_append_left: "contains p a \<Longrightarrow> contains p (a @ b)"
proof (induction a)
  case Nil
  then show ?case by simp
next
  case (Cons c cs)
  from Cons.prems have "take (length p) (c # cs) = p \<or> contains p cs" by simp
  then show ?case
  proof
    assume t: "take (length p) (c # cs) = p"
    then have "length (take (length p) (c # cs)) = length p" by simp
    then have "length p \<le> length (c # cs)" by simp
    then have "take (length p) ((c # cs) @ b) = take (length p) (c # cs)"
      by (subst take_append) simp
    with t have "take (length p) ((c # cs) @ b) = p" by simp
    then show ?thesis by (rule contains_prefix)
  next
    assume "contains p cs"
    then have "contains p (cs @ b)" by (rule Cons.IH)
    then show ?thesis by simp
  qed
qed

lemma contains_append_right: "contains p b \<Longrightarrow> contains p (a @ b)"
  using contains_drop [of p "length a" "a @ b"] by simp

lemma contains_past_char:
  assumes "c \<notin> set p" and "contains p (a @ c # b)"
  shows "contains p a \<or> contains p b"
  using assms(2)
proof (induction a)
  case Nil
  then have "take (length p) (c # b) = p \<or> contains p b" by simp
  then show ?case
  proof
    assume t: "take (length p) (c # b) = p"
    show ?thesis
    proof (cases p)
      case Nil
      then show ?thesis by simp
    next
      case (Cons x xs)
      with t have "x = c" by simp
      with Cons assms(1) show ?thesis by simp
    qed
  qed simp
next
  case (Cons x xs)
  from Cons.prems have "take (length p) (x # xs @ c # b) = p \<or> contains p (xs @ c # b)" by simp
  then show ?case
  proof
    assume t: "take (length p) (x # xs @ c # b) = p"
    show ?thesis
    proof (cases "length p \<le> length (x # xs)")
      case True
      then have "take (length p) ((x # xs) @ c # b) = take (length p) (x # xs)"
        by (subst take_append) simp
      with t have "take (length p) (x # xs) = p" by simp
      then have "contains p (x # xs)" by (rule contains_prefix)
      then show ?thesis by simp
    next
      case False
      then have "take (length p) ((x # xs) @ c # b)
          = (x # xs) @ take (length p - length (x # xs)) (c # b)"
        by (subst take_append) simp
      also have "\<dots> = (x # xs) @ c # take (length p - length (x # xs) - 1) b"
        using False by (cases "length p - length (x # xs)") simp_all
      finally have "c \<in> set p" using t by (metis append_Cons in_set_conv_decomp)
      with assms(1) show ?thesis by simp
    qed
  next
    assume "contains p (xs @ c # b)"
    then have "contains p xs \<or> contains p b" by (rule Cons.IH)
    then show ?thesis by auto
  qed
qed

lemma contains_past:
  assumes "set d \<inter> set p = {}" and "d \<noteq> []" and "p \<noteq> []" and "contains p (a @ d @ b)"
  shows "contains p a \<or> contains p b"
proof -
  have skip: "contains p (e @ b) \<Longrightarrow> set e \<inter> set p = {} \<Longrightarrow> contains p b" for e
  proof (induction e)
    case Nil
    then show ?case by simp
  next
    case (Cons x xs)
    from Cons.prems have "x \<notin> set p" by simp
    moreover from Cons.prems have "contains p ([] @ x # (xs @ b))" by simp
    ultimately have "contains p [] \<or> contains p (xs @ b)" by (rule contains_past_char)
    with assms(3) have "contains p (xs @ b)" by simp
    with Cons show ?case by simp
  qed
  from assms(2) obtain c e where d: "d = c # e" by (cases d) auto
  with assms(1) have "c \<notin> set p" by simp
  moreover from assms(4) d have "contains p (a @ c # (e @ b))" by simp
  ultimately have "contains p a \<or> contains p (e @ b)" by (rule contains_past_char)
  with skip [of e] assms(1) d show ?thesis by auto
qed

lemma units_nonneg: "NUMBER_UNITS w = Some u \<Longrightarrow> 0 \<le> u"
  by (auto simp: NUMBER_UNITS_def NUMBER_UNITS_items_def split: if_splits)

lemma words_loop_nonneg: "words_loop tot vs ws = Some v \<Longrightarrow> 0 \<le> tot \<Longrightarrow> 0 \<le> v"
proof (induction ws arbitrary: tot vs)
  case Nil
  then show ?case by (simp split: if_splits)
next
  case (Cons w ws)
  show ?case
  proof (cases "NUMBER_UNITS w")
    case None
    with Cons.prems Cons.IH show ?thesis
      by (auto split: if_splits)
  next
    case (Some u)
    then have "0 \<le> u" by (rule units_nonneg)
    with Some Cons.prems Cons.IH show ?thesis
      by (auto split: if_splits)
  qed
qed

lemma words_to_number_nonneg: "words_to_number ws = Some v \<Longrightarrow> 0 \<le> v"
  by (auto simp: words_to_number_def words_loop_nonneg split: if_splits)

lemma str_int_digits:
  "0 \<le> v \<Longrightarrow> str_int v \<noteq> [] \<and> (\<forall>c \<in> set (str_int v). 48 \<le> c \<and> c \<le> 57)"
  using str_nat_digits [of "nat v"] by (simp add: str_int_def)

lemma spellings_no_digit:
  "p \<in> set literal_patterns \<Longrightarrow> p \<noteq> [] \<and> hd p \<noteq> 32 \<and> (\<forall>c \<in> set p. \<not> (48 \<le> c \<and> c \<le> 57))"
  by (auto simp: literal_patterns_def ascii_def)

lemma suffix_loop_Nil_iff: "suffix_loop q xs = [] \<longleftrightarrow> xs = []"
  by (cases xs) (simp_all add: suffix_loop.simps(2))

lemma join_append:
  "xs \<noteq> [] \<Longrightarrow> ys \<noteq> [] \<Longrightarrow> join [32] (xs @ ys) = join [32] xs @ 32 # join [32] ys"
proof (induction xs rule: induct_list012)
  case 1
  then show ?case by simp
next
  case (2 x)
  then show ?case by (simp add: join_Cons)
next
  case (3 x y zs)
  then show ?case by simp
qed

lemma run_split: "xs = number_run xs @ after_run xs"
  by (simp add: number_run_def after_run_def)

lemma suffix_loop_keeps_absent:
  assumes p: "p \<in> set literal_patterns"
  shows "contains p (a @ join [32] (suffix_loop q xs)) \<Longrightarrow> contains p (a @ join [32] xs)"
proof (induction q xs arbitrary: a rule: suffix_loop.induct)
  case (1 q)
  then show ?case by simp
next
  case (2 q x xs)
  from p have pn: "p \<noteq> []" and ph: "hd p \<noteq> 32" and pd: "\<forall>c \<in> set p. \<not> (48 \<le> c \<and> c \<le> 57)"
    using spellings_no_digit by blast+
  show ?case
  proof (cases "head_converts q (x # xs)")
    case True
    let ?d = "str_int (the (words_to_number (number_run (x # xs))))"
    let ?L = "suffix_loop (last (number_run (x # xs))) (after_run (x # xs))"
    from True have s: "suffix_loop q (x # xs) = ?d # ?L" by (simp add: suffix_loop.simps(2))
    from True obtain v where "words_to_number (number_run (x # xs)) = Some v"
      by (auto simp: head_converts_def Let_def)
    then have "0 \<le> the (words_to_number (number_run (x # xs)))"
      using words_to_number_nonneg by simp
    then have d: "?d \<noteq> []" "\<forall>c \<in> set ?d. 48 \<le> c \<and> c \<le> 57"
      using str_int_digits by blast+
    with pd have dis: "set ?d \<inter> set p = {}" by blast
    from True have run: "number_run (x # xs) \<noteq> []"
      by (simp add: head_converts_def number_run_Cons)
    show ?thesis
    proof (cases "after_run (x # xs) = []")
      case e: True
      then have "?L = []" by simp
      with "2.prems" s have "contains p (a @ ?d @ [])" by simp
      with dis d(1) pn have "contains p a \<or> contains p []" by (rule contains_past)
      with pn have "contains p a" by simp
      then show ?thesis by (rule contains_append_left)
    next
      case ne: False
      then have Lne: "?L \<noteq> []" by (simp add: suffix_loop_Nil_iff)
      with "2.prems" s have "contains p (a @ ?d @ ([32] @ join [32] ?L))"
        by (simp add: join_Cons)
      with dis d(1) pn have "contains p a \<or> contains p ([32] @ join [32] ?L)"
        by (rule contains_past)
      then show ?thesis
      proof
        assume "contains p a"
        then show ?thesis by (rule contains_append_left)
      next
        assume "contains p ([32] @ join [32] ?L)"
        then have "contains p ([32] @ join [32] (after_run (x # xs)))"
          using True by (intro "2.IH"(1)) 
        then have "contains p ((a @ join [32] (number_run (x # xs)))
            @ [32] @ join [32] (after_run (x # xs)))"
          by (rule contains_append_right)
        moreover have "join [32] (x # xs)
            = join [32] (number_run (x # xs)) @ 32 # join [32] (after_run (x # xs))"
          using join_append [OF run ne] run_split [of "x # xs"] by simp
        ultimately show ?thesis by simp
      qed
    qed
  next
    case False
    then have s: "suffix_loop q (x # xs) = x # suffix_loop x xs"
      by (simp add: suffix_loop.simps(2))
    show ?thesis
    proof (cases "xs = []")
      case True
      with "2.prems" s show ?thesis by simp
    next
      case ne: False
      then have Lne: "suffix_loop x xs \<noteq> []" by (simp add: suffix_loop_Nil_iff)
      with "2.prems" s have "contains p ((a @ x @ [32]) @ join [32] (suffix_loop x xs))"
        by (simp add: join_Cons)
      then have "contains p ((a @ x @ [32]) @ join [32] xs)"
        using False by (intro "2.IH"(2))
      with ne show ?thesis by (simp add: join_Cons)
    qed
  qed
qed

lemma numbers_keep_absent:
  assumes p: "p \<in> set literal_patterns" and s: "single_spaced u" and a: "\<not> contains p u"
  shows "\<not> contains p (normalize_vietnamese_numbers u)"
proof (cases "split_ws u = []")
  case True
  with a show ?thesis by (simp add: normalize_vietnamese_numbers_def)
next
  case False
  have l: "normalize_loop (split_ws u) 0 [] = suffix_loop [] (split_ws u)"
    using normalize_loop_suffix [of 0 "split_ws u" "[]"] by (simp add: prev_at_def)
  have n: "normalize_vietnamese_numbers u = join [32] (suffix_loop [] (split_ws u))"
    using False by (simp add: normalize_vietnamese_numbers_def l)
  show ?thesis
  proof
    assume "contains p (normalize_vietnamese_numbers u)"
    then have "contains p ([] @ join [32] (suffix_loop [] (split_ws u)))" by (simp add: n)
    then have "contains p ([] @ join [32] (split_ws u))"
      by (rule suffix_loop_keeps_absent [OF p])
    with single_spaced_join [OF s] a show False by simp
  qed
qed

lemma single_spaced_no_spelling:
  assumes "single_spaced s" and "p \<in> set literal_patterns"
  shows "\<not> contains p (normalize_vietnamese_transcript s)"
proof -
  have "\<not> contains p (literal_replacements s)"
    using assms(2) by (rule literal_replacements_remove)
  with assms have "\<not> contains p (normalize_vietnamese_numbers (literal_replacements s))"
    by (intro numbers_keep_absent literal_replacements_single_spaced)
  with assms(2) show ?thesis
    unfolding transcript_passes by (intro cancellation_keeps_absent)
qed

lemma single_spaced_idempotent:
  assumes "single_spaced s"
  shows "normalize_vietnamese_transcript (normalize_vietnamese_transcript s)
           = normalize_vietnamese_transcript s"
  using assms by (intro transcript_quiescent transcript_settled ballI single_spaced_no_spelling)

text \<open>
  Claim C6, as amended. If none of the five literal spellings that the normalizer
  replaces occurs in the normalized text, then normalizing it again gives the same
  text.
\<close>

theorem C6_idempotent_unless_spelling:
  assumes "\<forall>p \<in> set literal_patterns. \<not> contains p (normalize_vietnamese_transcript s)"
  shows "normalize_vietnamese_transcript (normalize_vietnamese_transcript s)
           = normalize_vietnamese_transcript s"
  using assms by (intro transcript_quiescent transcript_settled)

lemma transcript_example:
  "normalize_vietnamese_transcript (join [32] [w_mot, w_gio, ascii ''tivi''])
     = join [32] [[49], w_gio, ascii ''tv'']"
  by (simp add: transcript_eval ascii_def)

theorem C6_idempotent_unless_spelling_witness:
  "normalize_vietnamese_transcript
     (normalize_vietnamese_transcript (join [32] [w_mot, w_gio, ascii ''tivi'']))
   = join [32] [[49], w_gio, ascii ''tv'']"
proof -
  have "\<forall>p \<in> set literal_patterns.
          \<not> contains p (normalize_vietnamese_transcript (join [32] [w_mot, w_gio, ascii ''tivi'']))"
    unfolding transcript_example by (simp add: literal_patterns_def word_defs ascii_def)
  from C6_idempotent_unless_spelling [OF this] show ?thesis
    unfolding transcript_example .
qed

text \<open>
  The claim as worded fails on "ti  vi" with two spaces: the number pass joins the
  tokens by one space, which makes the literal pattern "ti vi" that the second
  application replaces by "tv".
\<close>

theorem C6_counterexample:
  "normalize_vietnamese_transcript (normalize_vietnamese_transcript [116, 105, 32, 32, 118, 105])
     \<noteq> normalize_vietnamese_transcript [116, 105, 32, 32, 118, 105]"
proof -
  have 1: "normalize_vietnamese_transcript [116, 105, 32, 32, 118, 105] = [116, 105, 32, 118, 105]"
    by (simp add: transcript_eval)
  have 2: "normalize_vietnamese_transcript [116, 105, 32, 118, 105] = [116, 118]"
    by (simp add: transcript_eval)
  show ?thesis unfolding 1 2 by simp
qed

end
